theory Spec2Isabelle
  imports Complex_Main "HOL-Library.AList" "HOL-Library.Char_ord" "HOL-Library.List_Lexorder"
    "HOL-Library.Product_Lexorder"
begin

section \<open>Labeling task batch generation (pyannote/audio/labeling/tasks/base.py)\<close>

text \<open>
  Python integers are \<open>int\<close>. A Python float is the rational number (\<open>rat\<close>) it denotes.
  The arithmetic of \<open>batches_per_epoch\<close> is done in double precision, each operation
  rounded (section on double-precision arithmetic below); the arithmetic on segment
  boundaries (sums, differences and products of times) is taken as exact.
  Every exception the modelled code can raise is a value of \<open>py_error\<close>, and a
  function that may raise returns \<open>py_error + 'a\<close>.
\<close>

datatype py_error =
    KeyError string
  | ValueError string
  | ZeroDivisionError
  | NotImplementedError string
  | AttributeError string

subsection \<open>LabelingTaskGenerator: configuration\<close>

text \<open>
  The attributes set by \<open>LabelingTaskGenerator.__init__\<close>. The feature extractor is an
  opaque collaborator and carries no field here.
\<close>

record generator =
  duration :: rat
  batch_size :: int
  per_epoch :: rat
  parallel :: int
  exhaustive :: bool
  shuffle :: bool

subsection \<open>Double-precision arithmetic\<close>

text \<open>
  Python's \<open>float\<close> is the IEEE 754 binary64 format: 53 significant bits, every
  operation rounded to the nearest representable value, ties to the even significand.
  \<open>fl x\<close> is that rounding of the exact result \<open>x\<close>. The exponent range is not bounded
  here: overflow to infinity and gradual underflow, which need magnitudes beyond 1e308
  or below 1e-308, are outside the model.

  \<open>bit_length n\<close> is Python's \<open>int.bit_length\<close>; \<open>binade x\<close> is the exponent \<open>e\<close> with
  \<open>2^e \<le> |x| < 2^(e+1)\<close>; \<open>float_mul\<close> is \<open>x * y\<close> on two floats and \<open>float_of_int\<close> is
  \<open>float(n)\<close>, the conversion of an integer operand of a float operation.
\<close>

function bit_length :: "int \<Rightarrow> int" where
  "bit_length n = (if n \<le> 0 then 0 else bit_length (n div 2) + 1)"
  by pat_completeness auto
termination
  by (relation "measure nat") auto

declare bit_length.simps [simp del]

definition binade :: "rat \<Rightarrow> int" where
  "binade x =
     (let (a, b) = quotient_of \<bar>x\<bar>;
          e0 = bit_length a - bit_length b
      in if 2 powi e0 \<le> \<bar>x\<bar> then e0 else e0 - 1)"

definition round_half_even :: "rat \<Rightarrow> int" where
  "round_half_even t =
     (let f = \<lfloor>t\<rfloor>; r = t - of_int f
      in if r < 1 / 2 then f
         else if 1 / 2 < r then f + 1
         else if even f then f else f + 1)"

definition fl :: "rat \<Rightarrow> rat" where
  "fl x =
     (if x = 0 then 0
      else let q = 2 powi (binade x - 52) in of_int (round_half_even (x / q)) * q)"

definition float_mul :: "rat \<Rightarrow> rat \<Rightarrow> rat" where
  "float_mul x y = fl (x * y)"

definition float_of_int :: "int \<Rightarrow> rat" where
  "float_of_int n = fl (of_int n)"

text \<open>\<open>x / y\<close> on two floats, which raises when the divisor is zero.\<close>

definition float_truediv :: "rat \<Rightarrow> rat \<Rightarrow> py_error + rat" where
  "float_truediv x y = (if y = 0 then Inl ZeroDivisionError else Inr (fl (x / y)))"


subsection \<open>batches_per_epoch\<close>

text \<open>
  \<^verbatim>\<open>
  duration_per_epoch = self.per_epoch * 24 * 60 * 60
  duration_per_batch = self.duration * self.batch_size
  return int(np.ceil(duration_per_epoch / duration_per_batch))
  \<close>
  \<open>per_epoch\<close> and \<open>duration\<close> are floats and \<open>batch_size\<close> an integer, as documented: the
  products are evaluated left to right, each one rounded, the integer operands converted
  to float first. An integer \<open>per_epoch\<close> (the default, 1) is multiplied exactly by Python
  and gives the same values, integers below \<open>2^53\<close> being doubles. The division raises
  when the denominator is zero. \<open>np.ceil\<close> and \<open>int\<close> are exact.
\<close>

definition duration_per_epoch :: "generator \<Rightarrow> rat" where
  "duration_per_epoch g = float_mul (float_mul (float_mul (per_epoch g) 24) 60) 60"

definition duration_per_batch :: "generator \<Rightarrow> rat" where
  "duration_per_batch g = float_mul (duration g) (float_of_int (batch_size g))"

definition batches_per_epoch :: "generator \<Rightarrow> py_error + int" where
  "batches_per_epoch g =
     (case float_truediv (duration_per_epoch g) (duration_per_batch g) of
        Inl e \<Rightarrow> Inl e
      | Inr q \<Rightarrow> Inr \<lceil>q\<rceil>)"

subsection \<open>Corpus data\<close>

text \<open>
  \<open>Segment\<close> of pyannote.core: a start and an end time; its \<open>duration\<close> property is
  \<open>end - start\<close>.
\<close>

record segment =
  seg_start :: rat
  seg_end :: rat

definition seg_duration :: "segment \<Rightarrow> rat" where
  "seg_duration s = seg_end s - seg_start s"

text \<open>
  A protocol file, as \<open>initialize\<close> sees it after lines 121-125: \<open>annotated\<close> is the
  timeline stored under \<open>current_file['annotated']\<close> (already cropped to the audio
  support by pyannote.core's \<open>Timeline.crop\<close>), \<open>annotation_labels\<close> is
  \<open>current_file['annotation'].labels()\<close>, \<open>uri\<close> is \<open>get_unique_identifier(current_file)\<close>.
\<close>

record audio_file =
  uri :: string
  database :: string
  annotated :: "segment list"
  annotation_labels :: "string list"

text \<open>
  The label raster produced by \<open>one_hot_encoding\<close> and \<open>postprocess_y\<close> is opaque: it is
  identified by the file it was computed from and the label vocabulary used.
\<close>

record raster =
  raster_uri :: string
  raster_labels :: "string list"

record datum =
  segments :: "segment list"
  datum_duration :: rat
  current_file :: audio_file
  y :: "raster option"

text \<open>
  \<open>self.data_\<close> (here \<open>self_data\<close>; likewise \<open>self_databases\<close> and \<open>self_labels\<close> for
  \<open>self.databases_\<close> and \<open>self.labels_\<close>) is a Python dict: keys in insertion order, a store to an existing key
  replaces the value in place. \<open>AList.update\<close> is exactly that on an association list.
\<close>

type_synonym data = "(string \<times> datum) list"

record corpus =
  self_data :: data
  self_databases :: "string list"
  self_labels :: "string list"

subsection \<open>initialize\<close>

text \<open>
  \<^verbatim>\<open>segments = [s for s in current_file['annotated'] if s.duration > self.duration]\<close>
\<close>

definition eligible :: "generator \<Rightarrow> audio_file \<Rightarrow> segment list" where
  "eligible g f = filter (\<lambda>s. seg_duration s > duration g) (annotated f)"

text \<open>
  One iteration of the first loop on \<open>self.data_\<close>: \<open>continue\<close> when no segment is kept,
  otherwise store the datum under the file's uri.
\<close>

definition index_file :: "generator \<Rightarrow> audio_file \<Rightarrow> data \<Rightarrow> data" where
  "index_file g f d =
     (let segs = eligible g f in
      if segs = [] then d
      else AList.update (uri f)
             \<lparr>segments = segs,
              datum_duration = sum_list (map seg_duration segs),
              current_file = f,
              y = None\<rparr> d)"

fun index_files :: "generator \<Rightarrow> audio_file list \<Rightarrow> data \<Rightarrow> data" where
  "index_files g [] d = d"
| "index_files g (f # fs) d = index_files g fs (index_file g f d)"

definition one_hot :: "audio_file \<Rightarrow> string list \<Rightarrow> raster" where
  "one_hot f labels = \<lparr>raster_uri = uri f, raster_labels = labels\<rparr>"

text \<open>
  The second loop: \<open>self.data_[uri]['y'] = ...\<close> for every file of the subset. Reading
  \<open>self.data_[uri]\<close> raises \<open>KeyError\<close> when the uri was never stored.
\<close>

fun attach_y :: "string list \<Rightarrow> audio_file list \<Rightarrow> data \<Rightarrow> py_error + data" where
  "attach_y labels [] d = Inr d"
| "attach_y labels (f # fs) d =
     (case map_of d (uri f) of
        None \<Rightarrow> Inl (KeyError (uri f))
      | Some dm \<Rightarrow> attach_y labels fs (AList.update (uri f) (dm\<lparr>y := Some (one_hot f labels)\<rparr>) d))"

text \<open>\<open>sorted(databases)\<close> and \<open>sorted(labels)\<close> of the two sets gathered by the first loop.\<close>

definition sorted_unique :: "string list \<Rightarrow> string list" where
  "sorted_unique xs = sort (remdups xs)"

text \<open>
  \<open>initialize(protocol, subset)\<close>: \<open>files\<close> is what \<open>getattr(protocol, subset)()\<close> yields,
  on both of its calls.
\<close>

definition initialize :: "generator \<Rightarrow> audio_file list \<Rightarrow> py_error + corpus" where
  "initialize g files =
     (let d = index_files g files [];
          dbs = sorted_unique (map database files);
          lbls = sorted_unique (concat (map annotation_labels files))
      in case attach_y lbls files d of
           Inl e \<Rightarrow> Inl e
         | Inr d' \<Rightarrow> Inr \<lparr>self_data = d', self_databases = dbs, self_labels = lbls\<rparr>)"

subsection \<open>random_samples: the file weights\<close>

text \<open>
  \<^verbatim>\<open>
  uris = list(self.data_)
  durations = np.array([self.data_[uri]['duration'] for uri in uris])
  probabilities = durations / np.sum(durations)
  \<close>
  Each key of a dict looks up its own entry. When the sum is zero NumPy produces no
  weights (nan entries, or an empty array): \<open>None\<close>.
\<close>

definition uris :: "data \<Rightarrow> string list" where
  "uris d = map fst d"

definition durations :: "data \<Rightarrow> rat list" where
  "durations d = map (\<lambda>(u, dm). datum_duration dm) d"

definition probabilities :: "data \<Rightarrow> rat list option" where
  "probabilities d =
     (let ds = durations d; total = sum_list ds in
      if total = 0 then None else Some (map (\<lambda>x. x / total) ds))"

text \<open>
  \<open>np.random.choice(len(uris), p=probabilities)\<close> draws index \<open>i\<close> with weight
  \<open>probabilities[i]\<close>; \<open>draw_weight d i\<close> is the pair of the uri drawn and its weight.
\<close>

definition draw_weight :: "data \<Rightarrow> nat \<Rightarrow> (string \<times> rat) option" where
  "draw_weight d i =
     (case probabilities d of
        None \<Rightarrow> None
      | Some ps \<Rightarrow> if i < length (uris d) then Some (uris d ! i, ps ! i) else None)"

subsection \<open>Timelines and sliding windows\<close>

text \<open>
  \<open>Timeline\<close> of pyannote.core, as this code uses it: the constructor refuses an empty
  segment (\<open>ValueError('Segments must not be empty.')\<close>), where a segment is empty when
  its duration does not exceed the library's \<open>SEGMENT_PRECISION\<close> of one microsecond, and
  otherwise keeps the set of the segments, sorted by start and then end.
\<close>

definition SEGMENT_PRECISION :: rat where
  "SEGMENT_PRECISION = 1 / 1000000"

definition segment_nonempty :: "segment \<Rightarrow> bool" where
  "segment_nonempty s = (SEGMENT_PRECISION < seg_end s - seg_start s)"

definition Timeline :: "segment list \<Rightarrow> py_error + segment list" where
  "Timeline segs =
     (if list_all segment_nonempty segs
      then Inr (sort_key (\<lambda>s. (seg_start s, seg_end s)) (remdups segs))
      else Inl (ValueError ''Segments must not be empty.''))"

text \<open>
  Modelled from the spec: \<open>SlidingSegments\<close> of pyannote.generators is not among the
  sources. Following the specification, windows of the configured duration are slid
  across each region of the coverage, one every step, from the start of the region and
  as long as they fit in it: with step equal to duration they do not overlap, and a
  region of 6 seconds holds exactly 3 windows of 2 seconds. Only the source this code
  asks for, \<open>'annotated'\<close>, is modelled.
\<close>

record sliding_segments_cfg =
  ss_duration :: rat
  ss_step :: rat
  ss_source :: string

definition windows :: "rat \<Rightarrow> rat \<Rightarrow> segment \<Rightarrow> segment list" where
  "windows d st r =
     (if 0 < st \<and> d \<le> seg_duration r
      then map (\<lambda>k. \<lparr>seg_start = seg_start r + of_nat k * st,
                      seg_end = seg_start r + of_nat k * st + d\<rparr>)
               [0..<nat (\<lfloor>(seg_duration r - d) / st\<rfloor> + 1)]
      else [])"

definition from_file :: "sliding_segments_cfg \<Rightarrow> audio_file \<Rightarrow> py_error + segment list" where
  "from_file cfg f =
     (if ss_source cfg = ''annotated''
      then Inr (concat (map (windows (ss_duration cfg) (ss_step cfg)) (annotated f)))
      else Inl (NotImplementedError ''source''))"

subsection \<open>sliding_samples\<close>

text \<open>
  \<^verbatim>\<open>
  sliding_segments = SlidingSegments(duration=self.duration, step=self.duration,
                                     source='annotated')
  \<close>
\<close>

definition sliding_segments :: "generator \<Rightarrow> sliding_segments_cfg" where
  "sliding_segments g =
     \<lparr>ss_duration = duration g, ss_step = duration g, ss_source = ''annotated''\<rparr>"

text \<open>
  \<^verbatim>\<open>
  [Segment(s.start + np.random.random() * self.duration, s.end)
   for s in get_annotated(current_file)]
  \<close>
  The successive values of \<open>np.random.random()\<close> are the stream \<open>rnd\<close>, read from
  position \<open>k\<close> on: one value per region. \<open>Segment\<close> itself accepts any two numbers.
\<close>

fun shift_annotated :: "generator \<Rightarrow> (nat \<Rightarrow> rat) \<Rightarrow> nat \<Rightarrow> segment list \<Rightarrow> segment list" where
  "shift_annotated g rnd k [] = []"
| "shift_annotated g rnd k (s # ss) =
     \<lparr>seg_start = seg_start s + rnd k * duration g, seg_end = seg_end s\<rparr>
       # shift_annotated g rnd (Suc k) ss"

text \<open>
  \<^verbatim>\<open>
  current_file = dict(datum['current_file'])
  annotated = Timeline([...])
  current_file['annotated'] = annotated
  \<close>
  The copy of the file handed to \<open>sliding_segments.from_file\<close>, and the position of the
  random stream after it; the error of \<open>Timeline\<close> ends the generator.
\<close>

definition sliding_file :: "generator \<Rightarrow> (nat \<Rightarrow> rat) \<Rightarrow> nat \<Rightarrow> datum \<Rightarrow> py_error + (audio_file \<times> nat)" where
  "sliding_file g rnd k dm =
     (let f = current_file dm in
      case Timeline (shift_annotated g rnd k (annotated f)) of
        Inl e \<Rightarrow> Inl e
      | Inr shifted \<Rightarrow> Inr (f\<lparr>annotated := shifted\<rparr>, k + length (annotated f)))"

text \<open>
  NumPy's generator, as this code reads it: the successive values of
  \<open>np.random.random()\<close>, and what the successive calls of \<open>np.random.shuffle\<close> make of
  their argument. The state counts the calls of each made so far.
  A sample is the crop of a file's features and raster on a window: it is named by the
  uri of the file and the window.
\<close>

type_synonym sample = "string \<times> segment"

record np_random =
  random_values :: "nat \<Rightarrow> rat"
  shuffled_uris :: "nat \<Rightarrow> string list \<Rightarrow> string list"
  shuffled_samples :: "nat \<Rightarrow> sample list \<Rightarrow> sample list"

record rng_state =
  n_random :: nat
  n_shuffle :: nat

text \<open>
  The body of \<open>for uri in uris\<close>: the samples of one file, in the order they are yielded,
  which is the order of the windows unless \<open>self.shuffle\<close> is set.
\<close>

definition file_samples :: "generator \<Rightarrow> np_random \<Rightarrow> rng_state \<Rightarrow> string \<Rightarrow> datum \<Rightarrow> py_error + (sample list \<times> rng_state)" where
  "file_samples g np st u dm =
     (case sliding_file g (random_values np) (n_random st) dm of
        Inl e \<Rightarrow> Inl e
      | Inr (f, k') \<Rightarrow>
         (case from_file (sliding_segments g) f of
            Inl e \<Rightarrow> Inl e
          | Inr ws \<Rightarrow>
              if shuffle g
              then Inr (shuffled_samples np (n_shuffle st) (map (Pair u) ws),
                        \<lparr>n_random = k', n_shuffle = Suc (n_shuffle st)\<rparr>)
              else Inr (map (Pair u) ws, \<lparr>n_random = k', n_shuffle = n_shuffle st\<rparr>)))"

text \<open>
  \<open>for uri in uris\<close>: the samples yielded, and either the state after the last file or the
  error that ended the generator.
\<close>

fun sliding_files :: "generator \<Rightarrow> np_random \<Rightarrow> data \<Rightarrow> string list \<Rightarrow> rng_state \<Rightarrow> sample list \<times> (py_error + rng_state)" where
  "sliding_files g np d [] st = ([], Inr st)"
| "sliding_files g np d (u # us) st =
     (case map_of d u of
        None \<Rightarrow> ([], Inl (KeyError u))
      | Some dm \<Rightarrow>
         (case file_samples g np st u dm of
            Inl e \<Rightarrow> ([], Inl e)
          | Inr (out, st') \<Rightarrow>
              (let (out', r) = sliding_files g np d us st' in (out @ out', r))))"

text \<open>
  \<open>while True\<close>, run for a number of passes: each pass shuffles \<open>uris\<close> in place and goes
  through the files. The result is the samples yielded and the error that ended the
  generator, if any.
\<close>

fun sliding_passes :: "nat \<Rightarrow> generator \<Rightarrow> np_random \<Rightarrow> data \<Rightarrow> string list \<Rightarrow> rng_state \<Rightarrow> sample list \<times> py_error option" where
  "sliding_passes 0 g np d us st = ([], None)"
| "sliding_passes (Suc n) g np d us st =
     (let us' = shuffled_uris np (n_shuffle st) us;
          st1 = st\<lparr>n_shuffle := Suc (n_shuffle st)\<rparr>
      in case sliding_files g np d us' st1 of
           (out, Inl e) \<Rightarrow> (out, Some e)
         | (out, Inr st2) \<Rightarrow>
             (let (out', r) = sliding_passes n g np d us' st2 in (out @ out', r)))"

definition sliding_samples :: "generator \<Rightarrow> np_random \<Rightarrow> data \<Rightarrow> nat \<Rightarrow> sample list \<times> py_error option" where
  "sliding_samples g np d passes =
     sliding_passes passes g np d (uris d) \<lparr>n_random = 0, n_shuffle = 0\<rparr>"

subsection \<open>__call__: serving batches from the producers\<close>

text \<open>
  \<open>generators\<close> holds \<open>self.parallel\<close> producers when \<open>self.parallel\<close> is truthy
  (\<open>range\<close> of a negative number is empty), one producer otherwise.
\<close>

definition n_generators :: "generator \<Rightarrow> nat" where
  "n_generators g = (if parallel g \<noteq> 0 then nat (parallel g) else 1)"

text \<open>
  A producer is an endless iterator of batches; \<open>pos ! i\<close> counts the calls of \<open>next\<close>
  made on producer \<open>i\<close> so far, and the batch yielded is named by the pair of the
  producer and its rank in that producer's own sequence.
  \<^verbatim>\<open>
  while True:
      for batches in generators:
          for _ in range(batches_per_epoch):
              yield next(batches)
  \<close>
\<close>

fun serve_epoch :: "nat \<Rightarrow> nat \<Rightarrow> nat list \<Rightarrow> (nat \<times> nat) list \<times> nat list" where
  "serve_epoch 0 i pos = ([], pos)"
| "serve_epoch (Suc n) i pos =
     (let (out, pos') = serve_epoch n i (pos[i := Suc (pos ! i)])
      in ((i, pos ! i) # out, pos'))"

fun serve_round :: "nat \<Rightarrow> nat list \<Rightarrow> nat list \<Rightarrow> (nat \<times> nat) list \<times> nat list" where
  "serve_round bpe [] pos = ([], pos)"
| "serve_round bpe (i # is) pos =
     (let (out1, pos1) = serve_epoch bpe i pos;
          (out2, pos2) = serve_round bpe is pos1
      in (out1 @ out2, pos2))"

text \<open>
  The outer \<open>while True\<close>, run for \<open>rounds\<close> iterations. With no producer, or with a
  \<open>batches_per_epoch\<close> that is not positive, an iteration yields nothing and the loop spins:
  the sequence stays empty whatever the number of iterations.
\<close>

fun serve :: "nat \<Rightarrow> nat \<Rightarrow> nat list \<Rightarrow> nat list \<Rightarrow> (nat \<times> nat) list \<times> nat list" where
  "serve 0 bpe gens pos = ([], pos)"
| "serve (Suc rounds) bpe gens pos =
     (let (out1, pos1) = serve_round bpe gens pos;
          (out2, pos2) = serve rounds bpe gens pos1
      in (out1 @ out2, pos2))"

text \<open>
  \<open>__call__\<close>: \<open>initialize\<close>, then \<open>batches_per_epoch\<close>, then the producers and the loop.
  The result is the sequence of batches yielded by the first \<open>rounds\<close> iterations of
  the outer loop.
\<close>

definition call :: "generator \<Rightarrow> audio_file list \<Rightarrow> nat \<Rightarrow> py_error + (nat \<times> nat) list" where
  "call g files rounds =
     (case initialize g files of
        Inl e \<Rightarrow> Inl e
      | Inr c \<Rightarrow>
         (case batches_per_epoch g of
            Inl e \<Rightarrow> Inl e
          | Inr bpe \<Rightarrow>
              Inr (fst (serve rounds (nat bpe) [0..<n_generators g]
                          (replicate (n_generators g) 0)))))"

subsection \<open>LabelingTask\<close>

text \<open>
  Tensors and arrays are opaque lists of numbers; reshaping, device placement and
  conversion to NumPy do not change them. The three task kinds are the constants
  imported from the package.
\<close>

type_synonym tensor = "rat list"

type_synonym loss_fn = "tensor \<Rightarrow> tensor \<Rightarrow> tensor \<Rightarrow> rat"

datatype task_kind = TASK_CLASSIFICATION | TASK_MULTI_LABEL_CLASSIFICATION | TASK_REGRESSION

text \<open>
  The overridable properties of a task. \<open>None\<close> for \<open>task_type\<close> and \<open>n_classes\<close> is the
  base class's property, which raises \<open>NotImplementedError\<close>; \<open>None\<close> for \<open>weight\<close> is the
  base class's property, which returns Python's \<open>None\<close>.
\<close>

record task =
  task_type :: "task_kind option"
  n_classes :: "int option"
  weight :: "tensor option"

record model =
  model_n_classes :: int
  get_loss :: loss_fn
  forward :: "tensor \<Rightarrow> tensor"

text \<open>\<open>collections.deque\<close> with its \<open>maxlen\<close>.\<close>

record deque =
  items :: "tensor list"
  maxlen :: "nat option"

definition new_deque :: "int option \<Rightarrow> py_error + deque" where
  "new_deque m =
     (case m of
        None \<Rightarrow> Inr \<lparr>items = [], maxlen = None\<rparr>
      | Some k \<Rightarrow>
          if k < 0 then Inl (ValueError ''maxlen must be non-negative'')
          else Inr \<lparr>items = [], maxlen = Some (nat k)\<rparr>)"

definition deque_append :: "deque \<Rightarrow> tensor \<Rightarrow> deque" where
  "deque_append dq x =
     (case maxlen dq of
        None \<Rightarrow> dq\<lparr>items := items dq @ [x]\<rparr>
      | Some m \<Rightarrow>
          if m = 0 then dq
          else if length (items dq) < m then dq\<lparr>items := items dq @ [x]\<rparr>
          else dq\<lparr>items := tl (items dq) @ [x]\<rparr>)"

text \<open>
  The attributes \<open>self.loss_func_\<close>, \<open>self.log_y_pred_\<close> and \<open>self.log_y_true_\<close> that a
  task acquires in \<open>on_train_start\<close>; \<open>None\<close> while unset.
\<close>

record task_state =
  self_loss_func :: "loss_fn option"
  self_log_y_pred :: "deque option"
  self_log_y_true :: "deque option"

definition fresh_task :: task_state where
  "fresh_task = \<lparr>self_loss_func = None, self_log_y_pred = None, self_log_y_true = None\<rparr>"

text \<open>
  \<^verbatim>\<open>
  if model.n_classes != self.n_classes:
      raise ValueError('n_classes mismatch')
  self.loss_func_ = model.get_loss()
  self.log_y_pred_ = deque([], maxlen=batches_per_epoch)
  self.log_y_true_ = deque([], maxlen=batches_per_epoch)
  \<close>
\<close>

definition on_train_start :: "task \<Rightarrow> task_state \<Rightarrow> model \<Rightarrow> int option \<Rightarrow> py_error + task_state" where
  "on_train_start t st m bpe =
     (case n_classes t of
        None \<Rightarrow> Inl (NotImplementedError ''n_classes'')
      | Some n \<Rightarrow>
          if model_n_classes m \<noteq> n then Inl (ValueError ''n_classes mismatch'')
          else
            (case new_deque bpe of
               Inl e \<Rightarrow> Inl e
             | Inr dq \<Rightarrow>
                 Inr (st\<lparr>self_loss_func := Some (get_loss m),
                         self_log_y_pred := Some dq,
                         self_log_y_true := Some dq\<rparr>)))"

record batch =
  batch_X :: tensor
  batch_y :: tensor

text \<open>
  The classification branch of \<open>batch_loss\<close>: reads \<open>self.n_classes\<close>, and logs the
  prediction and the target when a writer is given.
\<close>

definition log_classification :: "task \<Rightarrow> task_state \<Rightarrow> tensor \<Rightarrow> tensor \<Rightarrow> bool \<Rightarrow> py_error + task_state" where
  "log_classification t st fX yy has_writer =
     (case n_classes t of
        None \<Rightarrow> Inl (NotImplementedError ''n_classes'')
      | Some n \<Rightarrow>
          if has_writer then
            (case self_log_y_pred st of
               None \<Rightarrow> Inl (AttributeError ''log_y_pred_'')
             | Some dp \<Rightarrow>
                (case self_log_y_true st of
                   None \<Rightarrow> Inl (AttributeError ''log_y_true_'')
                 | Some dt \<Rightarrow>
                     Inr (st\<lparr>self_log_y_pred := Some (deque_append dp fX),
                             self_log_y_true := Some (deque_append dt yy)\<rparr>)))
          else Inr st)"

text \<open>
  The last statement of \<open>batch_loss\<close>:
  \<^verbatim>\<open>return self.loss_func_(fX, target, weight=self.weight.to(device=device))\<close>
  Python evaluates \<open>self.loss_func_\<close>, then the arguments; \<open>.to\<close> on \<open>None\<close> raises
  \<open>AttributeError\<close>.
\<close>

definition apply_loss :: "task \<Rightarrow> task_state \<Rightarrow> tensor \<Rightarrow> tensor \<Rightarrow> py_error + rat" where
  "apply_loss t st fX target =
     (case self_loss_func st of
        None \<Rightarrow> Inl (AttributeError ''loss_func_'')
      | Some lf \<Rightarrow>
         (case weight t of
            None \<Rightarrow> Inl (AttributeError ''to'')
          | Some w \<Rightarrow> Inr (lf fX target w)))"

definition batch_loss :: "task \<Rightarrow> task_state \<Rightarrow> batch \<Rightarrow> model \<Rightarrow> bool \<Rightarrow> py_error + (rat \<times> task_state)" where
  "batch_loss t st b m has_writer =
     (let fX = forward m (batch_X b) in
      case task_type t of
        None \<Rightarrow> Inl (NotImplementedError ''task_type'')
      | Some TASK_CLASSIFICATION \<Rightarrow>
          (case log_classification t st fX (batch_y b) has_writer of
             Inl e \<Rightarrow> Inl e
           | Inr st' \<Rightarrow>
              (case apply_loss t st' fX (batch_y b) of
                 Inl e \<Rightarrow> Inl e
               | Inr l \<Rightarrow> Inr (l, st')))
      | Some TASK_MULTI_LABEL_CLASSIFICATION \<Rightarrow>
          (case apply_loss t st fX (batch_y b) of
             Inl e \<Rightarrow> Inl e
           | Inr l \<Rightarrow> Inr (l, st))
      | Some TASK_REGRESSION \<Rightarrow>
          (case apply_loss t st fX (batch_y b) of
             Inl e \<Rightarrow> Inl e
           | Inr l \<Rightarrow> Inr (l, st)))"

subsection \<open>The training loop\<close>

text \<open>
  Modelled from the spec: \<open>Trainer.fit\<close> of pyannote.audio.train.trainer, the training-loop
  driver that \<open>LabelingTask\<close> inherits from, is not among the sources. Following the
  specification, the driver calls the task's start hook, where a configuration error is
  fatal and raised before any batch is processed, and then the per-batch loss on every
  batch. The result is the error that stopped training, if any, and the number of calls
  of \<open>batch_loss\<close> that were made.
\<close>

fun run_batches :: "task \<Rightarrow> task_state \<Rightarrow> model \<Rightarrow> batch list \<Rightarrow> nat \<Rightarrow> py_error option \<times> nat" where
  "run_batches t st m [] k = (None, k)"
| "run_batches t st m (b # bs) k =
     (case batch_loss t st b m False of
        Inl e \<Rightarrow> (Some e, Suc k)
      | Inr (l, st') \<Rightarrow> run_batches t st' m bs (Suc k))"

definition fit :: "task \<Rightarrow> model \<Rightarrow> int option \<Rightarrow> batch list \<Rightarrow> py_error option \<times> nat" where
  "fit t m bpe bs =
     (case on_train_start t fresh_task m bpe of
        Inl e \<Rightarrow> (Some e, 0)
      | Inr st \<Rightarrow> run_batches t st m bs 0)"

subsection \<open>Derived quantities and sample inputs\<close>

text \<open>
  The total duration of the segments a file keeps (line 150), and the datum the first loop
  stores for a file that keeps at least one segment.
\<close>

definition usable_duration :: "generator \<Rightarrow> audio_file \<Rightarrow> rat" where
  "usable_duration g f = sum_list (map seg_duration (eligible g f))"

definition entry_of :: "generator \<Rightarrow> audio_file \<Rightarrow> datum" where
  "entry_of g f = \<lparr>segments = eligible g f, datum_duration = usable_duration g f,
                   current_file = f, y = None\<rparr>"

text \<open>
  Sample inputs: a window of 2 seconds; files with 10 and 5 seconds of annotated audio; a
  file whose annotated regions last 1 and exactly 2 seconds.
\<close>

definition example_generator :: generator where
  "example_generator = \<lparr>duration = 2, batch_size = 32, per_epoch = 1, parallel = 2,
                         exhaustive = False, shuffle = False\<rparr>"

definition file_a :: audio_file where
  "file_a = \<lparr>uri = ''a'', database = ''db'',
             annotated = [\<lparr>seg_start = 0, seg_end = 10\<rparr>], annotation_labels = [''speech'']\<rparr>"

definition file_b :: audio_file where
  "file_b = \<lparr>uri = ''b'', database = ''db'',
             annotated = [\<lparr>seg_start = 0, seg_end = 5\<rparr>], annotation_labels = [''speech'']\<rparr>"

definition file_short :: audio_file where
  "file_short = \<lparr>uri = ''short'', database = ''db'',
             annotated = [\<lparr>seg_start = 0, seg_end = 1\<rparr>, \<lparr>seg_start = 3, seg_end = 5\<rparr>],
             annotation_labels = [''speech'']\<rparr>"



text \<open>
  A generator with three batches per epoch (a little more than five seconds of audio per
  epoch, windows of two seconds, one sample per batch) and two producers.
\<close>

definition small_generator :: generator where
  "small_generator = \<lparr>duration = 2, batch_size = 1, per_epoch = 1 / 16384, parallel = 2,
                       exhaustive = False, shuffle = False\<rparr>"

text \<open>
  What one pass of the \<open>for\<close> loop over the producers \<open>gens\<close> yields, written in closed
  form: for each producer in turn, \<open>bpe\<close> consecutive batches from its current position.
\<close>

definition round_out :: "nat \<Rightarrow> nat list \<Rightarrow> nat list \<Rightarrow> (nat \<times> nat) list" where
  "round_out bpe gens pos = concat (map (\<lambda>i. map (\<lambda>j. (i, pos ! i + j)) [0..<bpe]) gens)"

text \<open>A two-class classification task that keeps the default \<open>weight\<close>, a model, a batch.\<close>

definition example_model :: model where
  "example_model = \<lparr>model_n_classes = 2, get_loss = (\<lambda>fX target w. 0), forward = (\<lambda>X. X)\<rparr>"

definition example_task :: task where
  "example_task = \<lparr>task_type = Some TASK_CLASSIFICATION, n_classes = Some 2, weight = None\<rparr>"

definition example_batch :: batch where
  "example_batch = \<lparr>batch_X = [1, 2], batch_y = [0, 1]\<rparr>"

text \<open>
  The timeline that \<open>sliding_samples\<close> builds from the shifted regions of a file, when
  \<open>Timeline\<close> accepts them.
\<close>

definition shifted_timeline :: "generator \<Rightarrow> (nat \<Rightarrow> rat) \<Rightarrow> nat \<Rightarrow> segment list \<Rightarrow> segment list" where
  "shifted_timeline g rnd k segs =
     sort_key (\<lambda>s. (seg_start s, seg_end s)) (remdups (shift_annotated g rnd k segs))"

text \<open>
  A file with a region of 1 second and a region of 7 seconds, and two generators of random
  values: one that always draws 0.25, one that always draws 0.75; neither shuffles.
\<close>

definition file_mixed :: audio_file where
  "file_mixed = \<lparr>uri = ''m'', database = ''db'',
             annotated = [\<lparr>seg_start = 0, seg_end = 1\<rparr>, \<lparr>seg_start = 3, seg_end = 10\<rparr>],
             annotation_labels = [''speech'']\<rparr>"

definition np_quarter :: np_random where
  "np_quarter = \<lparr>random_values = (\<lambda>n. 1 / 4), shuffled_uris = (\<lambda>k us. us),
                 shuffled_samples = (\<lambda>k xs. xs)\<rparr>"

definition np_three_quarters :: np_random where
  "np_three_quarters = \<lparr>random_values = (\<lambda>n. 3 / 4), shuffled_uris = (\<lambda>k us. us),
                 shuffled_samples = (\<lambda>k xs. xs)\<rparr>"

section \<open>Properties\<close>

lemmas ex_defs = example_generator_def file_a_def file_b_def file_short_def
  eligible_def seg_duration_def index_file_def usable_duration_def entry_of_def Let_def

subsection \<open>Double-precision rounding\<close>

lemma bit_length_pos: "0 < n \<Longrightarrow> 1 \<le> bit_length n"
proof (induction n rule: bit_length.induct)
  case (1 n)
  show ?case
  proof (cases "n div 2 \<le> 0")
    case True
    then show ?thesis using "1.prems" by (subst bit_length.simps) (simp add: bit_length.simps)
  next
    case False
    then show ?thesis using "1.prems" "1.IH" by (subst bit_length.simps) simp
  qed
qed

lemma bit_length_bounds:
  "0 < n \<Longrightarrow> 2 ^ nat (bit_length n - 1) \<le> n \<and> n < 2 ^ nat (bit_length n)"
proof (induction n rule: bit_length.induct)
  case (1 n)
  show ?case
  proof (cases "n div 2 \<le> 0")
    case True
    then have "n = 1" using "1.prems" by linarith
    then show ?thesis by (simp add: bit_length.simps)
  next
    case False
    then have h: "0 < n div 2" by simp
    from "1.IH" [OF _ h] "1.prems"
    have ih: "2 ^ nat (bit_length (n div 2) - 1) \<le> n div 2" "n div 2 < 2 ^ nat (bit_length (n div 2))"
      by auto
    have bl: "bit_length n = bit_length (n div 2) + 1"
      using "1.prems" by (subst bit_length.simps) simp
    have p: "1 \<le> bit_length (n div 2)" using h by (rule bit_length_pos)
    have e: "nat (bit_length (n div 2)) = Suc (nat (bit_length (n div 2) - 1))"
      using p by simp
    have "2 * 2 ^ nat (bit_length (n div 2) - 1) \<le> 2 * (n div 2)" using ih(1) by simp
    also have "\<dots> \<le> n" by simp
    finally have lo: "2 ^ nat (bit_length (n div 2)) \<le> n" by (simp add: e)
    have "n div 2 + 1 \<le> 2 ^ nat (bit_length (n div 2))" using ih(2) by simp
    then have "2 * (n div 2) + 2 \<le> 2 * 2 ^ nat (bit_length (n div 2))" by simp
    moreover have "n < 2 * (n div 2) + 2" by presburger
    ultimately have hi: "n < 2 * 2 ^ nat (bit_length (n div 2))" by linarith
    have "nat (bit_length (n div 2) + 1) = Suc (nat (bit_length (n div 2)))" using p by simp
    then show ?thesis using lo hi bl by simp
  qed
qed


lemma binade_bounds:
  assumes "x \<noteq> 0"
  shows "2 powi binade x \<le> \<bar>x\<bar> \<and> \<bar>x\<bar> < 2 powi (binade x + 1)"
proof -
  obtain a b where ab: "quotient_of \<bar>x\<bar> = (a, b)" by (cases "quotient_of \<bar>x\<bar>")
  have b: "0 < b" using ab by (rule quotient_of_denom_pos)
  have z: "\<bar>x\<bar> = of_int a / of_int b" using ab by (rule quotient_of_div)
  have ypos: "0 < \<bar>x\<bar>" using assms by simp
  have a: "0 < a"
  proof (rule ccontr)
    assume "\<not> 0 < a"
    then have "(of_int a :: rat) \<le> 0" by simp
    then have "(of_int a :: rat) / of_int b \<le> 0" using b by (simp add: divide_le_0_iff)
    then show False using ypos z by simp
  qed
  let ?la = "bit_length a" and ?lb = "bit_length b"
  have la: "1 \<le> ?la" and lb: "1 \<le> ?lb" using a b by (simp_all add: bit_length_pos)
  have A: "(2::rat) powi (?la - 1) \<le> of_int a" "(of_int a :: rat) < 2 powi ?la"
  proof -
    have "(2::int) ^ nat (?la - 1) \<le> a" "a < 2 ^ nat ?la" using bit_length_bounds [OF a] by auto
    then have "(of_int ((2::int) ^ nat (?la - 1)) :: rat) \<le> of_int a"
      "(of_int a :: rat) < of_int ((2::int) ^ nat ?la)"
      by (simp_all only: of_int_le_iff of_int_less_iff)
    then show "(2::rat) powi (?la - 1) \<le> of_int a" "(of_int a :: rat) < 2 powi ?la"
      using la by (simp_all add: power_int_def)
  qed
  have B: "(2::rat) powi (?lb - 1) \<le> of_int b" "(of_int b :: rat) < 2 powi ?lb"
  proof -
    have "(2::int) ^ nat (?lb - 1) \<le> b" "b < 2 ^ nat ?lb" using bit_length_bounds [OF b] by auto
    then have "(of_int ((2::int) ^ nat (?lb - 1)) :: rat) \<le> of_int b"
      "(of_int b :: rat) < of_int ((2::int) ^ nat ?lb)"
      by (simp_all only: of_int_le_iff of_int_less_iff)
    then show "(2::rat) powi (?lb - 1) \<le> of_int b" "(of_int b :: rat) < 2 powi ?lb"
      using lb by (simp_all add: power_int_def)
  qed
  have pw: "(0::rat) < 2 powi k" for k by simp
  have Bpos: "(0::rat) < of_int b" using b by simp
  have Apos: "(0::rat) < of_int a" using a by simp
  have upper: "\<bar>x\<bar> < 2 powi (?la - ?lb + 1)"
  proof -
    have "of_int a / of_int b < (2::rat) powi ?la / of_int b"
      using A(2) Bpos by (simp add: divide_strict_right_mono)
    also have "\<dots> \<le> 2 powi ?la / 2 powi (?lb - 1)"
      using B(1) pw [of "?lb - 1"] pw [of ?la] Bpos
      by (intro divide_left_mono mult_pos_pos) (simp_all only: less_imp_le)
    also have "\<dots> = 2 powi (?la - (?lb - 1))" by (simp add: power_int_diff)
    finally show ?thesis using z by (simp add: algebra_simps)
  qed
  have lower: "2 powi (?la - ?lb - 1) \<le> \<bar>x\<bar>"
  proof -
    have "(2::rat) powi (?la - 1 - ?lb) = 2 powi (?la - 1) / 2 powi ?lb"
      by (simp add: power_int_diff)
    also have "\<dots> \<le> of_int a / 2 powi ?lb"
      using A(1) by (simp add: divide_right_mono)
    also have "\<dots> \<le> of_int a / of_int b"
      using B(2) Bpos Apos pw [of ?lb]
      by (intro divide_left_mono mult_pos_pos) (simp_all only: less_imp_le)
    finally show ?thesis using z by (simp add: algebra_simps)
  qed
  show ?thesis
  proof (cases "2 powi (?la - ?lb) \<le> \<bar>x\<bar>")
    case True
    then have "binade x = ?la - ?lb" by (simp add: binade_def ab)
    then show ?thesis using True upper by simp
  next
    case False
    then have "binade x = ?la - ?lb - 1" by (simp add: binade_def ab)
    then show ?thesis using False lower by simp
  qed
qed

lemma pow2_less_imp: "(2::rat) powi m < 2 powi n \<Longrightarrow> m < n"
proof (rule ccontr)
  assume l: "(2::rat) powi m < 2 powi n" and "\<not> m < n"
  then have "n \<le> m" by simp
  then have "(2::rat) powi n \<le> 2 powi m" by (rule power_int_increasing) simp
  then show False using l by simp
qed

lemma binade_unique:
  assumes "2 powi e \<le> \<bar>x\<bar>" and "\<bar>x\<bar> < 2 powi (e + 1)"
  shows "binade x = e"
proof -
  have "(0::rat) < 2 powi e" by simp
  then have "0 < \<bar>x\<bar>" using assms(1) by linarith
  then have nz: "x \<noteq> 0" by simp
  note b = binade_bounds [OF nz]
  have "(2::rat) powi e < 2 powi (binade x + 1)" using assms(1) b by linarith
  then have 1: "e < binade x + 1" by (rule pow2_less_imp)
  have "(2::rat) powi binade x < 2 powi (e + 1)" using assms(2) b by linarith
  then have 2: "binade x < e + 1" by (rule pow2_less_imp)
  show ?thesis using 1 2 by simp
qed


lemma rhe_cases:
  "round_half_even t = \<lfloor>t\<rfloor> \<or> round_half_even t = \<lfloor>t\<rfloor> + 1"
  by (simp add: round_half_even_def Let_def)

lemma rhe_of_int [simp]: "round_half_even (of_int n) = n"
  by (simp add: round_half_even_def)

lemma rhe_mono: "s \<le> t \<Longrightarrow> round_half_even s \<le> round_half_even t"
proof -
  assume st: "s \<le> t"
  then have f: "\<lfloor>s\<rfloor> \<le> \<lfloor>t\<rfloor>" by (rule floor_mono)
  show ?thesis
  proof (cases "\<lfloor>s\<rfloor> = \<lfloor>t\<rfloor>")
    case True
    then have "s - of_int \<lfloor>s\<rfloor> \<le> t - of_int \<lfloor>t\<rfloor>" using st by simp
    then show ?thesis using True by (auto simp: round_half_even_def Let_def)
  next
    case False
    then have "\<lfloor>s\<rfloor> + 1 \<le> \<lfloor>t\<rfloor>" using f by simp
    moreover have "round_half_even s \<le> \<lfloor>s\<rfloor> + 1" using rhe_cases [of s] by auto
    moreover have "\<lfloor>t\<rfloor> \<le> round_half_even t" using rhe_cases [of t] by auto
    ultimately show ?thesis by linarith
  qed
qed


lemma rhe_minus: "round_half_even (- t) = - round_half_even t"
proof (cases "t = of_int \<lfloor>t\<rfloor>")
  case True
  then obtain n where "t = of_int n" by metis
  then have "- t = of_int (- n)" by simp
  then show ?thesis unfolding \<open>t = of_int n\<close> by (simp only: rhe_of_int)
next
  case False
  have "of_int \<lfloor>t\<rfloor> \<le> t" by (rule of_int_floor_le)
  with False have lt: "of_int \<lfloor>t\<rfloor> < t" by (metis order_le_neq_trans)
  have fl: "\<lfloor>- t\<rfloor> = - \<lfloor>t\<rfloor> - 1" using False lt by (intro floor_unique) linarith+
  define f where "f = \<lfloor>t\<rfloor>"
  define r where "r = t - of_int f"
  have r': "- t - of_int (- f - 1) = 1 - r" by (simp add: r_def)
  have a: "round_half_even t = (if r < 1 / 2 then f else if 1 / 2 < r then f + 1
             else if even f then f else f + 1)"
    by (simp add: round_half_even_def Let_def f_def r_def)
  have b: "round_half_even (- t) = (if 1 - r < 1 / 2 then - f - 1 else if 1 / 2 < 1 - r then - f
             else if even (- f - 1) then - f - 1 else - f)"
    unfolding round_half_even_def Let_def fl [folded f_def] r' by simp
  have c: "1 - r < 1 / 2 \<longleftrightarrow> 1 / 2 < r" "1 / 2 < 1 - r \<longleftrightarrow> r < 1 / 2" by linarith+
  show ?thesis unfolding a b c by auto
qed


lemma binade_minus [simp]: "binade (- x) = binade x"
  by (simp add: binade_def)

lemma fl_zero [simp]: "fl 0 = 0"
  by (simp add: fl_def)

lemma fl_minus: "fl (- x) = - fl x"
  by (simp add: fl_def Let_def rhe_minus)

lemma scaled_bounds:
  assumes "0 < x"
  shows "2 ^ 52 \<le> x / 2 powi (binade x - 52)" and "x / 2 powi (binade x - 52) < 2 ^ 53"
proof -
  have nz: "x \<noteq> 0" using assms by simp
  have b: "2 powi binade x \<le> x" "x < 2 powi (binade x + 1)"
    using binade_bounds [OF nz] assms by simp_all
  have q: "(0::rat) < 2 powi (binade x - 52)" by simp
  have e1: "(2::rat) powi binade x = 2 ^ 52 * 2 powi (binade x - 52)"
    by (simp add: power_int_diff)
  have e2: "(2::rat) powi (binade x + 1) = 2 ^ 53 * 2 powi (binade x - 52)"
    by (simp add: power_int_diff power_int_add)
  show "2 ^ 52 \<le> x / 2 powi (binade x - 52)"
    using b(1) q unfolding e1 by (simp add: pos_le_divide_eq)
  show "x / 2 powi (binade x - 52) < 2 ^ 53"
    using b(2) q unfolding e2 by (simp add: pos_divide_less_eq)
qed

lemma rounded_bounds:
  assumes "0 < x"
  shows "2 ^ 52 \<le> round_half_even (x / 2 powi (binade x - 52))"
    and "round_half_even (x / 2 powi (binade x - 52)) \<le> 2 ^ 53"
proof -
  have "round_half_even (of_int (2 ^ 52)) \<le> round_half_even (x / 2 powi (binade x - 52))"
    using scaled_bounds(1) [OF assms] by (intro rhe_mono) simp
  then show "2 ^ 52 \<le> round_half_even (x / 2 powi (binade x - 52))"
    by (simp only: rhe_of_int)
  have "round_half_even (x / 2 powi (binade x - 52)) \<le> round_half_even (of_int (2 ^ 53))"
    using scaled_bounds(2) [OF assms] by (intro rhe_mono) simp
  then show "round_half_even (x / 2 powi (binade x - 52)) \<le> 2 ^ 53"
    by (simp only: rhe_of_int)
qed

lemma fl_pos_bounds:
  assumes "0 < x"
  shows "2 powi binade x \<le> fl x" and "fl x \<le> 2 powi (binade x + 1)"
proof -
  let ?q = "(2::rat) powi (binade x - 52)"
  let ?n = "round_half_even (x / ?q)"
  have q: "0 < ?q" by simp
  have f: "fl x = of_int ?n * ?q" using assms by (simp add: fl_def Let_def)
  have e1: "(2::rat) powi binade x = 2 ^ 52 * ?q" by (simp add: power_int_diff)
  have e2: "(2::rat) powi (binade x + 1) = 2 ^ 53 * ?q"
    by (simp add: power_int_diff power_int_add)
  have "(of_int (2 ^ 52) :: rat) \<le> of_int ?n" "(of_int ?n :: rat) \<le> of_int (2 ^ 53)"
    using rounded_bounds [OF assms] by (simp_all only: of_int_le_iff)
  then have "(2 ^ 52 :: rat) \<le> of_int ?n" "(of_int ?n :: rat) \<le> 2 ^ 53" by simp_all
  then show "2 powi binade x \<le> fl x" "fl x \<le> 2 powi (binade x + 1)"
    unfolding f e1 e2 using q by (simp_all add: mult_right_mono)
qed

lemma fl_pos: "0 < x \<Longrightarrow> 0 < fl x"
proof -
  assume "0 < x"
  then have "2 powi binade x \<le> fl x" by (rule fl_pos_bounds)
  moreover have "(0::rat) < 2 powi binade x" by simp
  ultimately show ?thesis by linarith
qed

lemma fl_mono_pos:
  assumes "0 < x" and "x \<le> z"
  shows "fl x \<le> fl z"
proof -
  have z: "0 < z" using assms by simp
  have nx: "x \<noteq> 0" and ny: "z \<noteq> 0" using assms by simp_all
  have bx: "2 powi binade x \<le> x" using binade_bounds [OF nx] assms by simp
  have by': "z < 2 powi (binade z + 1)" using binade_bounds [OF ny] z by simp
  have "(2::rat) powi binade x < 2 powi (binade z + 1)" using bx by' assms(2) by linarith
  then have le: "binade x \<le> binade z" using pow2_less_imp [of "binade x" "binade z + 1"] by simp
  show ?thesis
  proof (cases "binade x = binade z")
    case True
    let ?q = "(2::rat) powi (binade z - 52)"
    have q: "0 < ?q" by simp
    have "x / ?q \<le> z / ?q" using assms(2) q by (simp add: divide_right_mono)
    then have "round_half_even (x / ?q) \<le> round_half_even (z / ?q)" by (rule rhe_mono)
    then have "(of_int (round_half_even (x / ?q)) :: rat) \<le> of_int (round_half_even (z / ?q))"
      by simp
    then have "of_int (round_half_even (x / ?q)) * ?q \<le> of_int (round_half_even (z / ?q)) * ?q"
      using q by (simp add: mult_right_mono)
    then show ?thesis using assms(1) z True by (simp add: fl_def Let_def)
  next
    case False
    then have "binade x + 1 \<le> binade z" using le by simp
    then have "(2::rat) powi (binade x + 1) \<le> 2 powi binade z"
      by (rule power_int_increasing) simp
    then show ?thesis using fl_pos_bounds(2) [OF assms(1)] fl_pos_bounds(1) [OF z] by linarith
  qed
qed

lemma fl_mono: "x \<le> z \<Longrightarrow> fl x \<le> fl z"
proof -
  assume xy: "x \<le> z"
  consider "0 < x" | "x \<le> 0" "0 \<le> z" | "z < 0" using xy by linarith
  then show ?thesis
  proof cases
    case 1
    then show ?thesis using xy by (rule fl_mono_pos)
  next
    case 2
    have "fl x \<le> 0"
    proof (cases "x = 0")
      case True then show ?thesis by simp
    next
      case False
      then have "0 < fl (- x)" using 2(1) by (intro fl_pos) simp
      then show ?thesis by (simp add: fl_minus)
    qed
    moreover have "0 \<le> fl z"
    proof (cases "z = 0")
      case True then show ?thesis by simp
    next
      case False
      then have "0 < fl z" using 2(2) by (intro fl_pos) simp
      then show ?thesis by simp
    qed
    ultimately show ?thesis by linarith
  next
    case 3
    then have "0 < - z" "- z \<le> - x" using xy by simp_all
    then have "fl (- z) \<le> fl (- x)" by (rule fl_mono_pos)
    then show ?thesis by (simp add: fl_minus)
  qed
qed

lemma fl_nonneg: "0 \<le> x \<Longrightarrow> 0 \<le> fl x"
  using fl_mono [of 0 x] by simp


lemma fl_eq_0_iff [simp]: "fl x = 0 \<longleftrightarrow> x = 0"
proof
  assume z: "fl x = 0"
  show "x = 0"
  proof (rule ccontr)
    assume nz: "x \<noteq> 0"
    show False
    proof (cases "0 < x")
      case True
      then show False using fl_pos [of x] z by simp
    next
      case False
      then have "0 < fl (- x)" using nz by (intro fl_pos) simp
      then show False using z by (simp add: fl_minus)
    qed
  qed
qed simp

subsection \<open>batches_per_epoch\<close>

lemma float_of_int_pos: "1 \<le> n \<Longrightarrow> 0 < float_of_int n"
  unfolding float_of_int_def by (rule fl_pos) simp

lemma duration_per_batch_pos:
  "0 < duration g \<Longrightarrow> 1 \<le> batch_size g \<Longrightarrow> 0 < duration_per_batch g"
  unfolding duration_per_batch_def float_mul_def
  by (intro fl_pos mult_pos_pos float_of_int_pos)

lemma duration_per_epoch_nonneg: "0 \<le> per_epoch g \<Longrightarrow> 0 \<le> duration_per_epoch g"
  unfolding duration_per_epoch_def float_mul_def
  by (intro fl_nonneg mult_nonneg_nonneg) simp_all

lemma bpe_mono_batch:
  assumes "0 < duration g" "0 \<le> per_epoch g" "1 \<le> batch_size g" "batch_size g \<le> b'"
  shows "\<exists>n n'. batches_per_epoch g = Inr n \<and> batches_per_epoch (g\<lparr>batch_size := b'\<rparr>) = Inr n' \<and> n' \<le> n"
proof -
  let ?g' = "g\<lparr>batch_size := b'\<rparr>"
  let ?P = "duration_per_epoch g"
  have P': "duration_per_epoch ?g' = ?P" by (simp add: duration_per_epoch_def)
  have P: "0 \<le> ?P" using assms(2) by (rule duration_per_epoch_nonneg)
  have D: "0 < duration_per_batch g" using assms(1,3) by (rule duration_per_batch_pos)
  have "float_of_int (batch_size g) \<le> float_of_int b'"
    unfolding float_of_int_def using assms(4) by (intro fl_mono) simp
  then have "duration g * float_of_int (batch_size g) \<le> duration g * float_of_int b'"
    using assms(1) by (simp add: mult_left_mono)
  then have le: "duration_per_batch g \<le> duration_per_batch ?g'"
    unfolding duration_per_batch_def float_mul_def by (simp add: fl_mono)
  then have D': "0 < duration_per_batch ?g'" using D by linarith
  have "?P / duration_per_batch ?g' \<le> ?P / duration_per_batch g"
    using P D le by (intro divide_left_mono mult_pos_pos D D') 
  then have "fl (?P / duration_per_batch ?g') \<le> fl (?P / duration_per_batch g)" by (rule fl_mono)
  then have "\<lceil>fl (?P / duration_per_batch ?g')\<rceil> \<le> \<lceil>fl (?P / duration_per_batch g)\<rceil>"
    by (rule ceiling_mono)
  then show ?thesis using D D' P'
    by (simp add: batches_per_epoch_def float_truediv_def)
qed

lemma bpe_mono_epoch:
  assumes "0 < duration g" "1 \<le> batch_size g" "per_epoch g \<le> p'"
  shows "\<exists>n n'. batches_per_epoch g = Inr n \<and> batches_per_epoch (g\<lparr>per_epoch := p'\<rparr>) = Inr n' \<and> n \<le> n'"
proof -
  let ?g' = "g\<lparr>per_epoch := p'\<rparr>"
  let ?D = "duration_per_batch g"
  have D': "duration_per_batch ?g' = ?D" by (simp add: duration_per_batch_def)
  have D: "0 < ?D" using assms(1,2) by (rule duration_per_batch_pos)
  have "fl (per_epoch g * 24) \<le> fl (p' * 24)" using assms(3) by (intro fl_mono) simp
  then have "fl (fl (per_epoch g * 24) * 60) \<le> fl (fl (p' * 24) * 60)" by (intro fl_mono) simp
  then have "fl (fl (fl (per_epoch g * 24) * 60) * 60) \<le> fl (fl (fl (p' * 24) * 60) * 60)"
    by (intro fl_mono) simp
  then have le: "duration_per_epoch g \<le> duration_per_epoch ?g'"
    by (simp add: duration_per_epoch_def float_mul_def)
  then have "duration_per_epoch g / ?D \<le> duration_per_epoch ?g' / ?D"
    using D by (intro divide_right_mono) simp_all
  then have "fl (duration_per_epoch g / ?D) \<le> fl (duration_per_epoch ?g' / ?D)" by (rule fl_mono)
  then have "\<lceil>fl (duration_per_epoch g / ?D)\<rceil> \<le> \<lceil>fl (duration_per_epoch ?g' / ?D)\<rceil>"
    by (rule ceiling_mono)
  then show ?thesis using D D'
    by (simp add: batches_per_epoch_def float_truediv_def)
qed












text \<open>
  Claim C8. For a positive window duration and a batch size of at least one:
  with a non-negative per_epoch, a larger batch size never gives more batches per epoch;
  and a larger per_epoch never gives fewer.
\<close>

theorem batches_per_epoch_monotone:
  assumes "0 < duration g" and "1 \<le> batch_size g"
  shows "(0 \<le> per_epoch g \<and> batch_size g \<le> b' \<longrightarrow>
            (\<exists>n n'. batches_per_epoch g = Inr n
                  \<and> batches_per_epoch (g\<lparr>batch_size := b'\<rparr>) = Inr n' \<and> n' \<le> n))
       \<and> (per_epoch g \<le> p' \<longrightarrow>
            (\<exists>n n'. batches_per_epoch g = Inr n
                  \<and> batches_per_epoch (g\<lparr>per_epoch := p'\<rparr>) = Inr n' \<and> n \<le> n'))"
  using assms bpe_mono_batch [of g b'] bpe_mono_epoch [of g p'] by blast

theorem batches_per_epoch_monotone_witness:
  "0 < duration example_generator \<and> 1 \<le> batch_size example_generator
   \<and> 0 \<le> per_epoch example_generator
   \<and> batch_size example_generator \<le> 64 \<and> per_epoch example_generator \<le> 2
   \<and> batches_per_epoch example_generator = Inr 1350
   \<and> batches_per_epoch (example_generator\<lparr>batch_size := 64\<rparr>) = Inr 675
   \<and> batches_per_epoch (example_generator\<lparr>per_epoch := 2\<rparr>) = Inr 2700"
proof -
  have h: "0 < duration example_generator" "1 \<le> batch_size example_generator"
    "0 \<le> per_epoch example_generator" "batch_size example_generator \<le> 64"
    "per_epoch example_generator \<le> 2"
    by (simp_all add: example_generator_def)
  have v: "batches_per_epoch example_generator = Inr 1350" by code_simp
  from batches_per_epoch_monotone [OF h(1,2), of 64 2] h(3,4,5) v
  obtain n' m' where
    b: "batches_per_epoch (example_generator\<lparr>batch_size := 64\<rparr>) = Inr n'" "n' \<le> 1350"
    and p: "batches_per_epoch (example_generator\<lparr>per_epoch := 2\<rparr>) = Inr m'" "1350 \<le> m'"
    by auto
  have "batches_per_epoch (example_generator\<lparr>batch_size := 64\<rparr>) = Inr 675" by code_simp
  moreover have "batches_per_epoch (example_generator\<lparr>per_epoch := 2\<rparr>) = Inr 2700" by code_simp
  ultimately show ?thesis using h v b p by simp
qed

subsection \<open>The corpus index\<close>

lemma index_file_alt:
  "index_file g f d = (if eligible g f = [] then d else AList.update (uri f) (entry_of g f) d)"
  by (simp add: index_file_def entry_of_def usable_duration_def Let_def)

lemma set_update_subset: "set (AList.update k v al) \<subseteq> insert (k, v) (set al)"
  by (induct al) auto

lemma index_files_entries:
  "(u, dm) \<in> set (index_files g fs d) \<Longrightarrow>
     (u, dm) \<in> set d \<or> (\<exists>f \<in> set fs. uri f = u \<and> eligible g f \<noteq> [] \<and> dm = entry_of g f)"
proof (induction fs arbitrary: d)
  case Nil
  then show ?case by simp
next
  case (Cons f fs)
  from Cons.IH [OF Cons.prems [simplified]]
  show ?case
  proof
    assume "(u, dm) \<in> set (index_file g f d)"
    then show ?thesis
      using set_update_subset [of "uri f" "entry_of g f" d]
      by (auto simp: index_file_alt split: if_splits)
  next
    assume "\<exists>f\<in>set fs. uri f = u \<and> eligible g f \<noteq> [] \<and> dm = entry_of g f"
    then show ?thesis by auto
  qed
qed

lemma index_files_keys:
  "fst ` set (index_files g fs d)
     = fst ` set d \<union> {uri f | f. f \<in> set fs \<and> eligible g f \<noteq> []}"
proof (induction fs arbitrary: d)
  case Nil
  then show ?case by simp
next
  case (Cons f fs)
  show ?case
    by (auto simp: Cons.IH index_file_alt dom_update)
qed

lemma sum_list_pos_nonempty:
  fixes xs :: "rat list"
  shows "xs \<noteq> [] \<Longrightarrow> \<forall>x \<in> set xs. 0 < x \<Longrightarrow> 0 < sum_list xs"
  by (induction xs) (auto intro: add_pos_nonneg sum_list_nonneg less_imp_le)

lemma usable_duration_pos:
  "0 \<le> duration g \<Longrightarrow> eligible g f \<noteq> [] \<Longrightarrow> 0 < usable_duration g f"
  unfolding usable_duration_def
  by (rule sum_list_pos_nonempty) (auto simp: eligible_def)

lemma usable_duration_zero:
  "0 \<le> duration g \<Longrightarrow> usable_duration g f = 0 \<Longrightarrow> eligible g f = []"
  using usable_duration_pos [of g f] by auto

lemma index_durations_pos:
  "0 \<le> duration g \<Longrightarrow> x \<in> set (durations (index_files g fs [])) \<Longrightarrow> 0 < x"
proof -
  assume g: "0 \<le> duration g" and x: "x \<in> set (durations (index_files g fs []))"
  from x obtain u dm where m: "(u, dm) \<in> set (index_files g fs [])" and e: "x = datum_duration dm"
    by (auto simp: durations_def)
  from index_files_entries [OF m] obtain f where "eligible g f \<noteq> []" "dm = entry_of g f"
    by auto
  then show "0 < x" using g e by (simp add: entry_of_def usable_duration_pos)
qed

lemma durations_update_same:
  "map_of d k = Some dm \<Longrightarrow> datum_duration v = datum_duration dm \<Longrightarrow>
     durations (AList.update k v d) = durations d"
  by (induction d) (auto simp: durations_def)

lemma uris_update_same:
  "map_of d k = Some dm \<Longrightarrow> uris (AList.update k v d) = uris d"
  by (induction d) (auto simp: uris_def)

lemma attach_y_keeps:
  "attach_y labels fs d = Inr d' \<Longrightarrow> uris d' = uris d \<and> durations d' = durations d"
proof (induction fs arbitrary: d)
  case Nil
  then show ?case by simp
next
  case (Cons f fs)
  then show ?case
    by (auto split: option.splits simp: durations_update_same uris_update_same)
qed

lemma initialize_keeps:
  "initialize g files = Inr c \<Longrightarrow>
     uris (self_data c) = uris (index_files g files []) \<and>
     durations (self_data c) = durations (index_files g files [])"
  by (auto simp: initialize_def Let_def split: sum.splits dest: attach_y_keeps)

lemma attach_y_missing:
  "f \<in> set fs \<Longrightarrow> uri f \<notin> fst ` set d \<Longrightarrow> \<exists>u. attach_y labels fs d = Inl (KeyError u)"
proof (induction fs arbitrary: d)
  case Nil
  then show ?case by simp
next
  case (Cons a fs)
  show ?case
  proof (cases "map_of d (uri a)")
    case None
    then show ?thesis by simp
  next
    case (Some dm)
    then have "(uri a, dm) \<in> set d" by (rule map_of_SomeD)
    then have in_d: "uri a \<in> fst ` set d" by force
    then have ne: "a \<noteq> f" using Cons.prems(2) by blast
    have "uri f \<notin> fst ` set (AList.update (uri a) (dm\<lparr>y := Some (one_hot a labels)\<rparr>) d)"
    proof -
      have "uri f \<noteq> uri a" using in_d Cons.prems(2) by metis
      then show ?thesis using Cons.prems(2) unfolding dom_update by simp
    qed
    with Cons.IH [of "AList.update (uri a) (dm\<lparr>y := Some (one_hot a labels)\<rparr>) d"] ne Cons.prems(1)
    show ?thesis using Some by auto
  qed
qed

text \<open>
  Claim C1. A file none of whose annotated segments is longer than the window is left out
  of the index by the first loop, but \<open>initialize\<close> does not complete: the second loop looks
  the file's uri up in the index and raises \<open>KeyError\<close>, whatever other files the subset has.
\<close>

theorem initialize_ineligible_file_raises:
  assumes "f \<in> set files" and "\<forall>f' \<in> set files. uri f' = uri f \<longrightarrow> eligible g f' = []"
  shows "uri f \<notin> set (uris (index_files g files []))
         \<and> (\<exists>u. initialize g files = Inl (KeyError u))"
proof -
  have notin: "uri f \<notin> fst ` set (index_files g files [])"
    using assms(2) by (auto simp: index_files_keys)
  then have "\<exists>u. attach_y (sorted_unique (concat (map annotation_labels files))) files
                 (index_files g files []) = Inl (KeyError u)"
    using assms(1) by (rule attach_y_missing [rotated])
  then show ?thesis using notin by (auto simp: initialize_def Let_def uris_def)
qed

theorem initialize_ineligible_file_raises_witness:
  "file_short \<in> set [file_a, file_short]
   \<and> eligible example_generator file_short = []
   \<and> uris (index_files example_generator [file_a, file_short] []) = [''a'']
   \<and> initialize example_generator [file_a, file_short] = Inl (KeyError ''short'')"
  using initialize_ineligible_file_raises [of file_short "[file_a, file_short]" example_generator]
  by (simp add: ex_defs initialize_def uris_def)

text \<open>
  Claim C6. A segment of the annotated timeline is kept exactly when its duration is
  strictly greater than the window duration; a segment exactly as long as the window is
  dropped; the kept segments are what the index stores for the file.
\<close>

theorem eligible_strictly_longer:
  "(s \<in> set (eligible g f) \<longleftrightarrow> s \<in> set (annotated f) \<and> duration g < seg_duration s)
   \<and> (seg_duration s = duration g \<longrightarrow> s \<notin> set (eligible g f))
   \<and> (eligible g f \<noteq> [] \<longrightarrow>
        (\<exists>dm. map_of (index_file g f d) (uri f) = Some dm \<and> segments dm = eligible g f))"
  by (auto simp: eligible_def index_file_def Let_def update_conv')

theorem eligible_strictly_longer_witness:
  "seg_duration \<lparr>seg_start = 3, seg_end = 5\<rparr> = duration example_generator
   \<and> \<lparr>seg_start = 3, seg_end = 5\<rparr> \<in> set (annotated file_short)
   \<and> \<lparr>seg_start = 3, seg_end = 5\<rparr> \<notin> set (eligible example_generator file_short)
   \<and> eligible example_generator file_a \<noteq> []
   \<and> (\<exists>dm. map_of (index_file example_generator file_a []) (uri file_a) = Some dm
            \<and> segments dm = [\<lparr>seg_start = 0, seg_end = 10\<rparr>])"
  using eligible_strictly_longer [of "\<lparr>seg_start = 3, seg_end = 5\<rparr>" example_generator file_short "[]"]
    eligible_strictly_longer [of "\<lparr>seg_start = 3, seg_end = 5\<rparr>" example_generator file_a "[]"]
  by (simp add: ex_defs)

text \<open>
  Claim C5. With a positive window duration, every duration of the index is strictly
  positive, so a non-empty index has a strictly positive sum of durations, before and
  after the rasters are attached, and the weights of \<open>random_samples\<close> are defined.
\<close>

theorem duration_sum_positive:
  assumes "0 < duration g"
  shows "(\<forall>x \<in> set (durations (index_files g files [])). 0 < x)
   \<and> (index_files g files [] \<noteq> [] \<longrightarrow> 0 < sum_list (durations (index_files g files [])))
   \<and> (\<forall>c. initialize g files = Inr c \<and> self_data c \<noteq> [] \<longrightarrow>
          0 < sum_list (durations (self_data c))
          \<and> (\<exists>ps. probabilities (self_data c) = Some ps))"
proof -
  have pos: "\<forall>x \<in> set (durations (index_files g files [])). 0 < x"
    using assms index_durations_pos [of g _ files] by auto
  have sum: "0 < sum_list (durations d)"
    if "d \<noteq> []" "durations d = durations (index_files g files [])" for d
  proof -
    have "durations d \<noteq> []" using that(1) by (simp add: durations_def)
    then show ?thesis using pos that(2) by (simp add: sum_list_pos_nonempty)
  qed
  have c: "0 < sum_list (durations (self_data c)) \<and> (\<exists>ps. probabilities (self_data c) = Some ps)"
    if "initialize g files = Inr c" "self_data c \<noteq> []" for c
  proof -
    have "0 < sum_list (durations (self_data c))"
      using sum [OF that(2)] initialize_keeps [OF that(1)] by simp
    then show ?thesis by (simp add: probabilities_def Let_def)
  qed
  show ?thesis using pos sum [of "index_files g files []"] c by blast
qed

theorem duration_sum_positive_witness:
  "0 < duration example_generator
   \<and> durations (index_files example_generator [file_a, file_b] []) = [10, 5]
   \<and> (\<exists>c. initialize example_generator [file_a, file_b] = Inr c \<and> self_data c \<noteq> []
          \<and> 0 < sum_list (durations (self_data c))
          \<and> (\<exists>ps. probabilities (self_data c) = Some ps))"
proof -
  obtain c where c: "initialize example_generator [file_a, file_b] = Inr c" "self_data c \<noteq> []"
    by (simp add: ex_defs initialize_def)
  have g: "0 < duration example_generator" by (simp add: example_generator_def)
  have d: "durations (index_files example_generator [file_a, file_b] []) = [10, 5]"
    by (simp add: ex_defs durations_def)
  show ?thesis using duration_sum_positive [OF g, of "[file_a, file_b]"] c g d by blast
qed

subsection \<open>random_samples\<close>

lemma draw_weight_SomeD:
  "draw_weight d i = Some (u, p) \<Longrightarrow>
     i < length d \<and> sum_list (durations d) \<noteq> 0 \<and> u = fst (d ! i)
     \<and> p = datum_duration (snd (d ! i)) / sum_list (durations d)"
  by (auto simp: draw_weight_def probabilities_def uris_def durations_def Let_def
      split: option.splits if_splits prod.splits)

text \<open>
  Claim C2. With a non-negative window duration: a file of the subset whose usable duration
  is 0 (and whose uri no other file shares) is not among the uris \<open>random_samples\<close> draws
  from; and every uri that can be drawn belongs to an indexed file, with weight that file's
  total eligible-segment duration divided by the sum of the durations of all indexed
  files. Attaching the rasters changes neither the uris nor the weights.
\<close>

theorem random_samples_weights:
  assumes "0 \<le> duration g"
  shows "(\<forall>f \<in> set files.
            usable_duration g f = 0 \<and> (\<forall>f' \<in> set files. uri f' = uri f \<longrightarrow> f' = f)
            \<longrightarrow> uri f \<notin> set (uris (index_files g files [])))
       \<and> (\<forall>i u p. draw_weight (index_files g files []) i = Some (u, p) \<longrightarrow>
            (\<exists>f \<in> set files. uri f = u \<and> 0 < usable_duration g f
               \<and> snd (index_files g files [] ! i) = entry_of g f
               \<and> p = usable_duration g f / sum_list (durations (index_files g files []))))
       \<and> (\<forall>c. initialize g files = Inr c \<longrightarrow>
            uris (self_data c) = uris (index_files g files [])
            \<and> probabilities (self_data c) = probabilities (index_files g files []))"
proof (intro conjI ballI allI impI)
  fix f assume f: "f \<in> set files"
    and z: "usable_duration g f = 0 \<and> (\<forall>f' \<in> set files. uri f' = uri f \<longrightarrow> f' = f)"
  have "eligible g f = []" using assms z usable_duration_zero by blast
  then have "\<forall>f' \<in> set files. uri f' = uri f \<longrightarrow> eligible g f' = []" using z by auto
  then show "uri f \<notin> set (uris (index_files g files []))"
    by (auto simp: uris_def index_files_keys)
next
  fix i u p assume dw: "draw_weight (index_files g files []) i = Some (u, p)"
  let ?d = "index_files g files []"
  from draw_weight_SomeD [OF dw]
  have i: "i < length ?d" and u: "u = fst (?d ! i)"
    and p: "p = datum_duration (snd (?d ! i)) / sum_list (durations ?d)" by auto
  from i have "(fst (?d ! i), snd (?d ! i)) \<in> set ?d" by simp
  from index_files_entries [OF this]
  obtain f where f: "f \<in> set files" "uri f = fst (?d ! i)" "eligible g f \<noteq> []"
    "snd (?d ! i) = entry_of g f" by auto
  have "0 < usable_duration g f" using assms f(3) by (rule usable_duration_pos)
  then show "\<exists>f \<in> set files. uri f = u \<and> 0 < usable_duration g f
               \<and> snd (?d ! i) = entry_of g f
               \<and> p = usable_duration g f / sum_list (durations ?d)"
    using f u p by (auto simp: entry_of_def)
next
  fix c assume "initialize g files = Inr c"
  from initialize_keeps [OF this]
  show "uris (self_data c) = uris (index_files g files [])" 
    and "probabilities (self_data c) = probabilities (index_files g files [])"
    by (simp_all add: probabilities_def)
qed

theorem random_samples_weights_witness:
  "0 \<le> duration example_generator
   \<and> usable_duration example_generator file_short = 0
   \<and> uris (index_files example_generator [file_a, file_short, file_b] []) = [''a'', ''b'']
   \<and> draw_weight (index_files example_generator [file_a, file_short, file_b] []) 0
       = Some (''a'', 2 / 3)
   \<and> draw_weight (index_files example_generator [file_a, file_short, file_b] []) 1
       = Some (''b'', 1 / 3)
   \<and> usable_duration example_generator file_a = 10
   \<and> usable_duration example_generator file_b = 5
   \<and> (\<exists>c. initialize example_generator [file_a, file_b] = Inr c \<and> uris (self_data c) = [''a'', ''b''])"
  using random_samples_weights [of example_generator "[file_a, file_short, file_b]"]
     random_samples_weights [of example_generator "[file_a, file_b]"]
  by (simp add: ex_defs uris_def draw_weight_def probabilities_def durations_def initialize_def)

subsection \<open>sliding_samples\<close>

lemma shift_annotated_length: "length (shift_annotated g rnd k segs) = length segs"
  by (induction segs arbitrary: k) auto

lemma shift_annotated_nth:
  "i < length segs \<Longrightarrow>
     shift_annotated g rnd k segs ! i
       = \<lparr>seg_start = seg_start (segs ! i) + rnd (k + i) * duration g, seg_end = seg_end (segs ! i)\<rparr>"
proof (induction segs arbitrary: k i)
  case Nil
  then show ?case by simp
next
  case (Cons s segs)
  then show ?case by (cases i) auto
qed

lemma shifted_nonempty_iff:
  "list_all segment_nonempty (shift_annotated g rnd k segs)
     \<longleftrightarrow> (\<forall>i < length segs. SEGMENT_PRECISION < seg_duration (segs ! i) - rnd (k + i) * duration g)"
  by (auto simp: list_all_length shift_annotated_length shift_annotated_nth segment_nonempty_def
      seg_duration_def algebra_simps)

lemma sliding_file_raises:
  assumes "i < length (annotated (current_file dm))"
    and "seg_duration (annotated (current_file dm) ! i) - rnd (k + i) * duration g \<le> SEGMENT_PRECISION"
  shows "sliding_file g rnd k dm = Inl (ValueError ''Segments must not be empty.'')"
proof -
  have "\<not> list_all segment_nonempty (shift_annotated g rnd k (annotated (current_file dm)))"
    unfolding shifted_nonempty_iff using assms by (auto simp: not_less)
  then show ?thesis by (simp add: sliding_file_def Timeline_def Let_def)
qed

lemma sliding_file_returns:
  assumes "\<forall>i < length (annotated (current_file dm)).
             SEGMENT_PRECISION < seg_duration (annotated (current_file dm) ! i) - rnd (k + i) * duration g"
  shows "sliding_file g rnd k dm
           = Inr ((current_file dm)\<lparr>annotated :=
                     sort_key (\<lambda>s. (seg_start s, seg_end s))
                       (remdups (shift_annotated g rnd k (annotated (current_file dm))))\<rparr>,
                  k + length (annotated (current_file dm)))"
proof -
  have "list_all segment_nonempty (shift_annotated g rnd k (annotated (current_file dm)))"
    unfolding shifted_nonempty_iff using assms by simp
  then show ?thesis by (simp add: sliding_file_def Timeline_def Let_def)
qed

lemma windows_length:
  "0 < st \<Longrightarrow> d \<le> seg_duration r \<Longrightarrow>
     length (windows d st r) = nat (\<lfloor>(seg_duration r - d) / st\<rfloor> + 1)"
  by (simp add: windows_def)

lemma windows_nth:
  "j < length (windows d st r) \<Longrightarrow>
     windows d st r ! j = \<lparr>seg_start = seg_start r + of_nat j * st,
                            seg_end = seg_start r + of_nat j * st + d\<rparr>"
  by (auto simp: windows_def split: if_splits)

lemma windows_inside:
  assumes "j < length (windows d st r)"
  shows "seg_start r \<le> seg_start (windows d st r ! j)"
    and "seg_end (windows d st r ! j) \<le> seg_end r"
    and "seg_end (windows d st r ! j) - seg_start (windows d st r ! j) = d"
proof -
  have c: "0 < st" "d \<le> seg_duration r" using assms by (auto simp: windows_def split: if_splits)
  have n: "int j < \<lfloor>(seg_duration r - d) / st\<rfloor> + 1"
    using assms c by (simp add: windows_length)
  then have "of_int (int j) \<le> (seg_duration r - d) / st" by (simp add: le_floor_iff)
  then have js: "of_nat j * st \<le> seg_duration r - d" using c(1) by (simp add: pos_le_divide_eq)
  have p: "0 \<le> of_nat j * st" using c(1) by simp
  show "seg_start r \<le> seg_start (windows d st r ! j)" using p by (simp add: windows_nth [OF assms])
  show "seg_end (windows d st r ! j) \<le> seg_end r"
    using js by (simp add: windows_nth [OF assms] seg_duration_def)
  show "seg_end (windows d st r ! j) - seg_start (windows d st r ! j) = d"
    by (simp add: windows_nth [OF assms])
qed

lemma windows_adjacent:
  assumes "Suc j < length (windows d d r)"
  shows "seg_start (windows d d r ! Suc j) = seg_end (windows d d r ! j)"
proof -
  have j: "j < length (windows d d r)" using assms by simp
  show ?thesis by (simp add: windows_nth [OF assms] windows_nth [OF j] algebra_simps)
qed

lemma from_file_sliding:
  "from_file (sliding_segments g) f
     = Inr (concat (map (windows (duration g) (duration g)) (annotated f)))"
  by (simp add: from_file_def sliding_segments_def)


lemma file_samples_raises:
  assumes "i < length (annotated (current_file dm))"
    and "seg_duration (annotated (current_file dm) ! i)
           - random_values np (n_random st + i) * duration g \<le> SEGMENT_PRECISION"
  shows "file_samples g np st u dm = Inl (ValueError ''Segments must not be empty.'')"
  using sliding_file_raises [of i dm "random_values np" "n_random st" g] assms
  by (simp add: file_samples_def)
lemma file_samples_returns:
  assumes "\<forall>i < length (annotated (current_file dm)).
             SEGMENT_PRECISION < seg_duration (annotated (current_file dm) ! i)
                - random_values np (n_random st + i) * duration g"
    and "\<not> shuffle g"
  shows "file_samples g np st u dm
           = Inr (map (Pair u)
                    (concat (map (windows (duration g) (duration g))
                       (shifted_timeline g (random_values np) (n_random st)
                          (annotated (current_file dm))))),
                  \<lparr>n_random = n_random st + length (annotated (current_file dm)),
                   n_shuffle = n_shuffle st\<rparr>)"
  using sliding_file_returns [of dm "random_values np" "n_random st" g] assms
  by (simp add: file_samples_def from_file_sliding shifted_timeline_def)

lemma single_file_passes:
  assumes d: "map_of d u = Some dm" and ns: "\<not> shuffle g"
    and su: "\<forall>k. shuffled_uris np k [u] = [u]"
    and valid: "\<forall>p < P. \<forall>i < length (annotated (current_file dm)).
             SEGMENT_PRECISION < seg_duration (annotated (current_file dm) ! i)
                - random_values np (n_random st + p * length (annotated (current_file dm)) + i)
                    * duration g"
  shows "sliding_passes P g np d [u] st
           = (concat (map (\<lambda>p. map (Pair u)
                  (concat (map (windows (duration g) (duration g))
                     (shifted_timeline g (random_values np)
                        (n_random st + p * length (annotated (current_file dm)))
                        (annotated (current_file dm))))))
                [0..<P]), None)"
  using valid
proof (induction P arbitrary: st)
  case 0
  then show ?case by simp
next
  case (Suc P)
  let ?m = "length (annotated (current_file dm))"
  let ?st1 = "st\<lparr>n_shuffle := Suc (n_shuffle st)\<rparr>"
  let ?st2 = "\<lparr>n_random = n_random st + ?m, n_shuffle = Suc (n_shuffle st)\<rparr>"
  let ?out = "\<lambda>k. map (Pair u) (concat (map (windows (duration g) (duration g))
                     (shifted_timeline g (random_values np) k (annotated (current_file dm)))))"
  have v0: "\<forall>i < ?m. SEGMENT_PRECISION < seg_duration (annotated (current_file dm) ! i)
                - random_values np (n_random ?st1 + i) * duration g"
    using Suc.prems by (auto dest: spec [where x = 0])
  have fs: "file_samples g np ?st1 u dm = Inr (?out (n_random st), ?st2)"
    using file_samples_returns [OF v0 ns, of u] by simp
  have files: "sliding_files g np d [u] ?st1 = (?out (n_random st), Inr ?st2)"
    using d fs by simp
  have vn: "\<forall>p < P. \<forall>i < ?m. SEGMENT_PRECISION < seg_duration (annotated (current_file dm) ! i)
                - random_values np (n_random ?st2 + p * ?m + i) * duration g"
  proof (intro allI impI)
    fix p i assume "p < P" "i < ?m"
    then have "Suc p < Suc P" by simp
    with Suc.prems \<open>i < ?m\<close>
    have "SEGMENT_PRECISION < seg_duration (annotated (current_file dm) ! i)
                - random_values np (n_random st + Suc p * ?m + i) * duration g"
      by blast
    then show "SEGMENT_PRECISION < seg_duration (annotated (current_file dm) ! i)
                - random_values np (n_random ?st2 + p * ?m + i) * duration g"
      by (simp add: add.assoc add.commute add.left_commute)
  qed
  have ih: "sliding_passes P g np d [u] ?st2
              = (concat (map (\<lambda>p. ?out (n_random st + Suc p * ?m)) [0..<P]), None)"
    using Suc.IH [OF vn] by (simp add: add.assoc add.commute add.left_commute)
  have "[0..<Suc P] = 0 # map Suc [0..<P]"
    by (simp add: upt_conv_Cons map_Suc_upt del: upt_Suc)
  then have "concat (map (\<lambda>p. ?out (n_random st + p * ?m)) [0..<Suc P])
               = ?out (n_random st) @ concat (map (\<lambda>p. ?out (n_random st + Suc p * ?m)) [0..<P])"
    by (simp add: comp_def del: upt_Suc)
  then show ?case using su files ih by (simp add: Let_def del: upt_Suc)
qed

text \<open>
  Claim C7. On a pass over a file in sliding mode, with a positive window duration and
  draws of \<open>np.random.random()\<close> in [0, 1): every annotated region gets its own draw, its
  start is increased by that draw times the window duration, a shift in
  [0, window duration), and its end is unchanged. When a region does not outlast its shift,
  building the timeline raises \<open>ValueError\<close> and the generator ends. Otherwise the samples
  of the file are the windows slid over the sorted shifted regions, each of the window
  duration, inside its region, and starting where the previous one ends; and the random
  stream has advanced by one draw per region, so that every pass over the file uses new
  draws.
\<close>

theorem sliding_samples_shift:
  assumes "\<forall>n. 0 \<le> random_values np n \<and> random_values np n < 1" and "0 < duration g"
  shows "(\<forall>i < length segs.
            seg_end (shift_annotated g (random_values np) k segs ! i) = seg_end (segs ! i)
          \<and> seg_start (shift_annotated g (random_values np) k segs ! i)
               = seg_start (segs ! i) + random_values np (k + i) * duration g
          \<and> 0 \<le> random_values np (k + i) * duration g
          \<and> random_values np (k + i) * duration g < duration g)
       \<and> ((\<exists>i < length (annotated (current_file dm)).
              seg_duration (annotated (current_file dm) ! i)
                - random_values np (n_random st + i) * duration g \<le> SEGMENT_PRECISION)
            \<longrightarrow> file_samples g np st u dm = Inl (ValueError ''Segments must not be empty.''))
       \<and> ((\<forall>i < length (annotated (current_file dm)).
              SEGMENT_PRECISION < seg_duration (annotated (current_file dm) ! i)
                - random_values np (n_random st + i) * duration g) \<and> \<not> shuffle g
            \<longrightarrow> file_samples g np st u dm
                  = Inr (map (Pair u)
                           (concat (map (windows (duration g) (duration g))
                              (shifted_timeline g (random_values np) (n_random st)
                                 (annotated (current_file dm))))),
                         \<lparr>n_random = n_random st + length (annotated (current_file dm)),
                          n_shuffle = n_shuffle st\<rparr>))
       \<and> (\<forall>j < length (windows (duration g) (duration g) r).
              seg_duration (windows (duration g) (duration g) r ! j) = duration g
            \<and> seg_start r \<le> seg_start (windows (duration g) (duration g) r ! j)
            \<and> seg_end (windows (duration g) (duration g) r ! j) \<le> seg_end r
            \<and> (Suc j < length (windows (duration g) (duration g) r) \<longrightarrow>
                 seg_start (windows (duration g) (duration g) r ! Suc j)
                   = seg_end (windows (duration g) (duration g) r ! j)))
       \<and> (map_of d u = Some dm \<and> \<not> shuffle g \<and> (\<forall>n. shuffled_uris np n [u] = [u])
            \<and> (\<forall>p < passes. \<forall>i < length (annotated (current_file dm)).
                  SEGMENT_PRECISION < seg_duration (annotated (current_file dm) ! i)
                    - random_values np (n_random st + p * length (annotated (current_file dm)) + i)
                        * duration g)
            \<longrightarrow> sliding_passes passes g np d [u] st
                  = (concat (map (\<lambda>p. map (Pair u)
                        (concat (map (windows (duration g) (duration g))
                           (shifted_timeline g (random_values np)
                              (n_random st + p * length (annotated (current_file dm)))
                              (annotated (current_file dm))))))
                      [0..<passes]), None))"
proof (intro conjI allI impI)
  fix i assume i: "i < length segs"
  have r: "0 \<le> random_values np (k + i)" "random_values np (k + i) < 1" using assms(1) by auto
  show "seg_end (shift_annotated g (random_values np) k segs ! i) = seg_end (segs ! i)"
    by (simp add: shift_annotated_nth [OF i])
  show "seg_start (shift_annotated g (random_values np) k segs ! i)
               = seg_start (segs ! i) + random_values np (k + i) * duration g"
    by (simp add: shift_annotated_nth [OF i])
  show "0 \<le> random_values np (k + i) * duration g" using r(1) assms(2) by simp
  show "random_values np (k + i) * duration g < duration g"
    using r(2) assms(2) by (simp add: mult_less_cancel_right2)
next
  assume "\<exists>i < length (annotated (current_file dm)).
              seg_duration (annotated (current_file dm) ! i)
                - random_values np (n_random st + i) * duration g \<le> SEGMENT_PRECISION"
  then show "file_samples g np st u dm = Inl (ValueError ''Segments must not be empty.'')"
    using file_samples_raises by blast
next
  assume "(\<forall>i < length (annotated (current_file dm)).
              SEGMENT_PRECISION < seg_duration (annotated (current_file dm) ! i)
                - random_values np (n_random st + i) * duration g) \<and> \<not> shuffle g"
  then show "file_samples g np st u dm
                  = Inr (map (Pair u)
                           (concat (map (windows (duration g) (duration g))
                              (shifted_timeline g (random_values np) (n_random st)
                                 (annotated (current_file dm))))),
                         \<lparr>n_random = n_random st + length (annotated (current_file dm)),
                          n_shuffle = n_shuffle st\<rparr>)"
    using file_samples_returns by blast
next
  fix j assume j: "j < length (windows (duration g) (duration g) r)"
  show "seg_duration (windows (duration g) (duration g) r ! j) = duration g"
    using windows_inside(3) [OF j] by (simp add: seg_duration_def)
  show "seg_start r \<le> seg_start (windows (duration g) (duration g) r ! j)"
    using j by (rule windows_inside)
  show "seg_end (windows (duration g) (duration g) r ! j) \<le> seg_end r"
    using j by (rule windows_inside)
  show "seg_start (windows (duration g) (duration g) r ! Suc j)
                   = seg_end (windows (duration g) (duration g) r ! j)"
    if "Suc j < length (windows (duration g) (duration g) r)"
    using that by (rule windows_adjacent)
next
  assume a: "map_of d u = Some dm \<and> \<not> shuffle g \<and> (\<forall>n. shuffled_uris np n [u] = [u])
            \<and> (\<forall>p < passes. \<forall>i < length (annotated (current_file dm)).
                  SEGMENT_PRECISION < seg_duration (annotated (current_file dm) ! i)
                    - random_values np (n_random st + p * length (annotated (current_file dm)) + i)
                        * duration g)"
  show "sliding_passes passes g np d [u] st
                  = (concat (map (\<lambda>p. map (Pair u)
                        (concat (map (windows (duration g) (duration g))
                           (shifted_timeline g (random_values np)
                              (n_random st + p * length (annotated (current_file dm)))
                              (annotated (current_file dm))))))
                      [0..<passes]), None)"
    using a by (intro single_file_passes) blast+
qed

lemma mixed_index:
  "index_files example_generator [file_mixed] []
     = [(''m'', \<lparr>segments = [\<lparr>seg_start = 3, seg_end = 10\<rparr>], datum_duration = 7,
                 current_file = file_mixed, y = None\<rparr>)]"
  by (simp add: example_generator_def file_mixed_def eligible_def seg_duration_def
      index_file_def Let_def)

theorem sliding_samples_shift_witness:
  "(\<forall>n. 0 \<le> random_values np_three_quarters n \<and> random_values np_three_quarters n < 1)
   \<and> 0 < duration example_generator
   \<and> sliding_samples example_generator np_three_quarters
        (index_files example_generator [file_mixed] []) (Suc 0)
       = ([], Some (ValueError ''Segments must not be empty.''))
   \<and> sliding_samples example_generator np_quarter
        (index_files example_generator [file_mixed] []) (Suc (Suc 0))
       = ([(''m'', \<lparr>seg_start = 7 / 2, seg_end = 11 / 2\<rparr>),
           (''m'', \<lparr>seg_start = 11 / 2, seg_end = 15 / 2\<rparr>),
           (''m'', \<lparr>seg_start = 15 / 2, seg_end = 19 / 2\<rparr>),
           (''m'', \<lparr>seg_start = 7 / 2, seg_end = 11 / 2\<rparr>),
           (''m'', \<lparr>seg_start = 11 / 2, seg_end = 15 / 2\<rparr>),
           (''m'', \<lparr>seg_start = 15 / 2, seg_end = 19 / 2\<rparr>)], None)"
proof -
  let ?dm = "\<lparr>segments = [\<lparr>seg_start = 3, seg_end = 10\<rparr>], datum_duration = 7,
                 current_file = file_mixed, y = None\<rparr>"
  have h: "\<forall>n. 0 \<le> random_values np_three_quarters n \<and> random_values np_three_quarters n < 1"
    "0 < duration example_generator"
    by (simp_all add: np_three_quarters_def example_generator_def)
  have short: "\<exists>i < length (annotated (current_file ?dm)).
              seg_duration (annotated (current_file ?dm) ! i)
                - random_values np_three_quarters (n_random \<lparr>n_random = 0, n_shuffle = Suc 0\<rparr> + i)
                    * duration example_generator \<le> SEGMENT_PRECISION"
    by (rule exI [where x = 0])
       (simp add: file_mixed_def np_three_quarters_def example_generator_def seg_duration_def
          SEGMENT_PRECISION_def)
  have fs: "file_samples example_generator np_three_quarters \<lparr>n_random = 0, n_shuffle = Suc 0\<rparr>
              ''m'' ?dm = Inl (ValueError ''Segments must not be empty.'')"
    using sliding_samples_shift [OF h, of "[]" 0 ?dm "\<lparr>n_random = 0, n_shuffle = Suc 0\<rparr>" "''m''"]
      short by blast
  have su: "shuffled_uris np_three_quarters k us = us" for k us
    by (simp add: np_three_quarters_def)
  have bad: "sliding_samples example_generator np_three_quarters
        (index_files example_generator [file_mixed] []) (Suc 0)
       = ([], Some (ValueError ''Segments must not be empty.''))"
    unfolding sliding_samples_def mixed_index using fs su by (simp add: uris_def)
  have good: "sliding_samples example_generator np_quarter
        (index_files example_generator [file_mixed] []) (Suc (Suc 0))
       = ([(''m'', \<lparr>seg_start = 7 / 2, seg_end = 11 / 2\<rparr>),
           (''m'', \<lparr>seg_start = 11 / 2, seg_end = 15 / 2\<rparr>),
           (''m'', \<lparr>seg_start = 15 / 2, seg_end = 19 / 2\<rparr>),
           (''m'', \<lparr>seg_start = 7 / 2, seg_end = 11 / 2\<rparr>),
           (''m'', \<lparr>seg_start = 11 / 2, seg_end = 15 / 2\<rparr>),
           (''m'', \<lparr>seg_start = 15 / 2, seg_end = 19 / 2\<rparr>)], None)"
    by code_simp
  show ?thesis using h bad good by blast
qed

subsection \<open>Serving batches\<close>

lemma serve_epoch_out:
  "i < length pos \<Longrightarrow> fst (serve_epoch n i pos) = map (\<lambda>j. (i, pos ! i + j)) [0..<n]"
proof (induction n arbitrary: pos)
  case 0
  then show ?case by simp
next
  case (Suc n)
  have "map (\<lambda>j. (i, pos ! i + j)) [0..<Suc n]
          = (i, pos ! i) # map (\<lambda>j. (i, Suc (pos ! i) + j)) [0..<n]"
    by (simp add: upt_conv_Cons map_Suc_upt [symmetric] del: upt_Suc)
  then show ?case using Suc by (simp add: split_beta del: upt_Suc)
qed

lemma serve_epoch_pos:
  "i < length pos \<Longrightarrow> snd (serve_epoch n i pos) = pos[i := pos ! i + n]"
proof (induction n arbitrary: pos)
  case 0
  then show ?case by simp
next
  case (Suc n)
  then show ?case by (simp add: split_beta)
qed
lemma serve_round_out:
  "distinct gens \<Longrightarrow> \<forall>i \<in> set gens. i < length pos \<Longrightarrow>
     fst (serve_round bpe gens pos) = round_out bpe gens pos
     \<and> length (snd (serve_round bpe gens pos)) = length pos
     \<and> (\<forall>i < length pos. snd (serve_round bpe gens pos) ! i
            = (if i \<in> set gens then pos ! i + bpe else pos ! i))"
proof (induction gens arbitrary: pos)
  case Nil
  then show ?case by (simp add: round_out_def)
next
  case (Cons a gens)
  let ?p1 = "pos[a := pos ! a + bpe]"
  have a: "a < length pos" using Cons.prems by simp
  have e: "serve_epoch bpe a pos = (map (\<lambda>j. (a, pos ! a + j)) [0..<bpe], ?p1)"
    using serve_epoch_out [OF a, of bpe] serve_epoch_pos [OF a, of bpe]
    by (simp add: prod_eq_iff)
  have d: "distinct gens" "\<forall>i \<in> set gens. i < length ?p1" "a \<notin> set gens"
    using Cons.prems by auto
  note ih = Cons.IH [OF d(1,2)]
  have keep: "?p1 ! x = pos ! x" if "x \<in> set gens" for x
    using d(3) that by (metis nth_list_update_neq)
  have same: "round_out bpe gens ?p1 = round_out bpe gens pos"
    unfolding round_out_def
    by (intro arg_cong [where f = concat] map_cong refl) (simp add: keep)
  show ?case
    using ih e same a d(3)
    by (auto simp: split_beta round_out_def nth_list_update)
qed


lemma concat_blocks_length:
  "\<forall>ys \<in> set xss. length ys = n \<Longrightarrow> length (concat xss) = length xss * n"
  by (induction xss) auto

lemma concat_blocks_nth:
  "\<forall>ys \<in> set xss. length ys = n \<Longrightarrow> k < length xss * n \<Longrightarrow>
     concat xss ! k = xss ! (k div n) ! (k mod n)"
proof (induction xss arbitrary: k)
  case Nil
  then show ?case by simp
next
  case (Cons xs xss)
  have n: "0 < n" using Cons.prems(2) by (cases n) auto
  show ?case
  proof (cases "k < n")
    case True
    then show ?thesis using Cons.prems by (simp add: nth_append)
  next
    case False
    then obtain k' where k': "k = n + k'" using le_Suc_ex [of n k] by auto
    then have lt: "k' < length xss * n" using Cons.prems(2) by simp
    have len: "length xs = n" using Cons.prems(1) by simp
    have "concat (xs # xss) ! k = concat xss ! k'"
      using len k' by (simp add: nth_append)
    also have "\<dots> = xss ! (k' div n) ! (k' mod n)"
      using Cons.IH [OF _ lt] Cons.prems(1) by simp
    also have "\<dots> = (xs # xss) ! (k div n) ! (k mod n)"
      using k' n by simp
    finally show ?thesis .
  qed
qed

lemma round_out_length:
  "length (round_out bpe gens pos) = length gens * bpe"
  unfolding round_out_def by (rule trans [OF concat_blocks_length [where n = bpe]]) auto

lemma round_out_nth:
  "k < length gens * bpe \<Longrightarrow>
     round_out bpe gens pos ! k = (gens ! (k div bpe), pos ! (gens ! (k div bpe)) + k mod bpe)"
proof -
  assume k: "k < length gens * bpe"
  then have b: "0 < bpe" by (cases bpe) auto
  have d: "k div bpe < length gens" using k b by (simp add: less_mult_imp_div_less)
  have m: "k mod bpe < bpe" using b by simp
  have "round_out bpe gens pos ! k
          = map (\<lambda>i. map (\<lambda>j. (i, pos ! i + j)) [0..<bpe]) gens ! (k div bpe) ! (k mod bpe)"
    unfolding round_out_def using k by (intro concat_blocks_nth) auto
  then show ?thesis using d m by simp
qed


lemma serve_round_all:
  "serve_round bpe [0..<length pos] pos
     = (round_out bpe [0..<length pos] pos, map (\<lambda>x. x + bpe) pos)"
proof -
  have r: "fst (serve_round bpe [0..<length pos] pos) = round_out bpe [0..<length pos] pos
     \<and> length (snd (serve_round bpe [0..<length pos] pos)) = length pos
     \<and> (\<forall>i < length pos. snd (serve_round bpe [0..<length pos] pos) ! i
            = (if i \<in> set [0..<length pos] then pos ! i + bpe else pos ! i))"
    by (rule serve_round_out) simp_all
  then have "snd (serve_round bpe [0..<length pos] pos) = map (\<lambda>x. x + bpe) pos"
    by (intro nth_equalityI) simp_all
  then show ?thesis using r by (simp add: prod_eq_iff)
qed

lemma serve_out:
  "length pos = N \<Longrightarrow>
   fst (serve r bpe [0..<N] pos)
     = concat (map (\<lambda>e. round_out bpe [0..<N] (map (\<lambda>x. x + e * bpe) pos)) [0..<r])"
proof (induction r arbitrary: pos)
  case 0
  then show ?case by simp
next
  case (Suc r)
  have sr: "serve_round bpe [0..<N] pos = (round_out bpe [0..<N] pos, map (\<lambda>x. x + bpe) pos)"
    using serve_round_all [of bpe pos] Suc.prems by simp
  have ih: "fst (serve r bpe [0..<N] (map (\<lambda>x. x + bpe) pos))
     = concat (map (\<lambda>e. round_out bpe [0..<N] (map (\<lambda>x. x + Suc e * bpe) pos)) [0..<r])"
    using Suc.IH [of "map (\<lambda>x. x + bpe) pos"] Suc.prems
    by (simp add: comp_def add.assoc add.commute)
  have "[0..<Suc r] = 0 # map Suc [0..<r]"
    by (simp add: upt_conv_Cons map_Suc_upt del: upt_Suc)
  then have "concat (map (\<lambda>e. round_out bpe [0..<N] (map (\<lambda>x. x + e * bpe) pos)) [0..<Suc r])
     = round_out bpe [0..<N] pos
       @ concat (map (\<lambda>e. round_out bpe [0..<N] (map (\<lambda>x. x + Suc e * bpe) pos)) [0..<r])"
    by (simp add: comp_def del: upt_Suc)
  then show ?case using sr ih by (simp add: split_beta del: upt_Suc)
qed

lemma serve_length:
  assumes "length pos = N"
  shows "length (fst (serve r bpe [0..<N] pos)) = r * N * bpe"
proof -
  let ?blocks = "map (\<lambda>e. round_out bpe [0..<N] (map (\<lambda>x. x + e * bpe) pos)) [0..<r]"
  have "length (concat ?blocks) = length ?blocks * (N * bpe)"
    by (rule concat_blocks_length) (auto simp: round_out_length)
  then show ?thesis using serve_out [OF assms, of r bpe] by simp
qed

lemma serve_nth:
  assumes "k < r * N * bpe"
  shows "fst (serve r bpe [0..<N] (replicate N 0)) ! k
           = ((k div bpe) mod N, (k div (bpe * N)) * bpe + k mod bpe)"
proof -
  let ?blocks = "map (\<lambda>e. round_out bpe [0..<N] (map (\<lambda>x. x + e * bpe) (replicate N 0))) [0..<r]"
  have b: "0 < bpe" and n: "0 < N" using assms by (cases bpe; cases N; auto)+
  let ?e = "k div (N * bpe)" and ?k = "k mod (N * bpe)"
  have e: "?e < r" using assms b n by (simp add: less_mult_imp_div_less mult.assoc)
  have k': "?k < N * bpe" using b n by simp
  have i: "?k div bpe < N" using k' b by (simp add: less_mult_imp_div_less)
  have out: "fst (serve r bpe [0..<N] (replicate N 0)) = concat ?blocks"
    by (rule serve_out) simp
  have kk: "k < length ?blocks * (N * bpe)" using assms by (simp add: mult.assoc)
  have "concat ?blocks ! k = ?blocks ! ?e ! ?k"
    using _ kk by (rule concat_blocks_nth) (auto simp: round_out_length)
  then have "fst (serve r bpe [0..<N] (replicate N 0)) ! k = ?blocks ! ?e ! ?k"
    using out by simp
  also have "\<dots> = round_out bpe [0..<N] (map (\<lambda>x. x + ?e * bpe) (replicate N 0)) ! ?k"
    using e by simp
  also have "\<dots> = (?k div bpe, ?e * bpe + ?k mod bpe)"
    using k' i by (simp add: round_out_nth)
  finally have main: "fst (serve r bpe [0..<N] (replicate N 0)) ! k
                        = (?k div bpe, ?e * bpe + ?k mod bpe)" .
  have split: "?k = bpe * (k div bpe mod N) + k mod bpe"
    using mod_mult2_eq [of k bpe N] by (simp add: mult.commute)
  have "?k div bpe = (k div bpe) mod N"
    unfolding split using b by simp
  moreover have "?k mod bpe = k mod bpe"
    unfolding split by simp
  ultimately show ?thesis using main by (simp add: mult.commute)
qed

text \<open>
  Claim C4. Once \<open>initialize\<close> and \<open>batches_per_epoch\<close> have returned, the batches yielded by
  any number of iterations of the outer loop are: batch number \<open>k\<close> comes from producer
  \<open>(k div batches_per_epoch) mod N\<close>, so that each block of \<open>batches_per_epoch\<close>
  consecutive batches has one producer and the producers follow each other cyclically;
  each producer's batches are consumed in order, none skipped; and with at least one
  producer and one batch per epoch the sequence grows without bound.
\<close>

theorem call_round_robin:
  assumes "initialize g files = Inr c" and "batches_per_epoch g = Inr b"
  shows "\<exists>out. call g files rounds = Inr out
          \<and> length out = rounds * n_generators g * nat b
          \<and> (\<forall>k < length out.
                out ! k = ((k div nat b) mod n_generators g,
                           (k div (nat b * n_generators g)) * nat b + k mod nat b))
          \<and> (1 \<le> n_generators g \<and> 1 \<le> b \<longrightarrow> rounds \<le> length out)"
proof -
  let ?N = "n_generators g"
  let ?out = "fst (serve rounds (nat b) [0..<?N] (replicate ?N 0))"
  have c: "call g files rounds = Inr ?out" using assms by (simp add: call_def)
  have l: "length ?out = rounds * ?N * nat b" by (rule serve_length) simp
  have n: "\<forall>k < length ?out. ?out ! k = ((k div nat b) mod ?N,
                           (k div (nat b * ?N)) * nat b + k mod nat b)"
    using serve_nth [of _ rounds ?N "nat b"] l by simp
  have g: "rounds \<le> length ?out" if "1 \<le> ?N \<and> 1 \<le> b"
  proof -
    have "1 \<le> ?N * nat b" using that by (simp add: Suc_le_eq)
    then have "rounds * 1 \<le> rounds * (?N * nat b)" by (rule mult_le_mono2)
    then show ?thesis using l by (simp add: mult.assoc)
  qed
  show ?thesis using c l n g by blast
qed

theorem call_round_robin_witness:
  "(\<exists>c. initialize small_generator [file_a, file_b] = Inr c)
   \<and> batches_per_epoch small_generator = Inr 3
   \<and> n_generators small_generator = 2
   \<and> call small_generator [file_a, file_b] 2
        = Inr [(0, 0), (0, 1), (0, 2), (1, 0), (1, 1), (1, 2),
               (0, 3), (0, 4), (0, 5), (1, 3), (1, 4), (1, 5)]"
proof -
  obtain c where c: "initialize small_generator [file_a, file_b] = Inr c"
    by (simp add: small_generator_def ex_defs initialize_def)
  have b: "batches_per_epoch small_generator = Inr 3"
    by code_simp
  have n: "n_generators small_generator = 2"
    by (simp add: small_generator_def n_generators_def)
  from call_round_robin [OF c b, of 2] obtain out where
    out: "call small_generator [file_a, file_b] 2 = Inr out" "length out = 12"
    and nth: "\<forall>k < 12. out ! k = ((k div 3) mod 2, (k div 6) * 3 + k mod 3)"
    using n by auto
  have "out = map (\<lambda>k. ((k div 3) mod 2, (k div 6) * 3 + k mod 3)) [0..<12]"
    using out(2) nth by (intro nth_equalityI) simp_all
  also have "\<dots> = [(0, 0), (0, 1), (0, 2), (1, 0), (1, 1), (1, 2),
               (0, 3), (0, 4), (0, 5), (1, 3), (1, 4), (1, 5)]"
    by code_simp
  finally show ?thesis using c b n out(1) by blast
qed

subsection \<open>LabelingTask\<close>

text \<open>
  Claim C9. For a task that defines \<open>n_classes\<close>, \<open>on_train_start\<close> raises
  \<open>ValueError('n_classes mismatch')\<close> exactly when the model's \<open>n_classes\<close> differs from the
  task's; with a valid \<open>batches_per_epoch\<close> it raises nothing else; and with a mismatched
  model the training loop stops there, with no call of \<open>batch_loss\<close>.
\<close>

theorem on_train_start_mismatch:
  assumes "n_classes t = Some n"
  shows "(on_train_start t st m bpe = Inl (ValueError ''n_classes mismatch''))
            = (model_n_classes m \<noteq> n)
       \<and> ((\<forall>k. bpe = Some k \<longrightarrow> 0 \<le> k) \<longrightarrow>
            isl (on_train_start t st m bpe) = (model_n_classes m \<noteq> n))
       \<and> (model_n_classes m \<noteq> n \<longrightarrow>
            fit t m bpe bs = (Some (ValueError ''n_classes mismatch''), 0))"
  using assms
  by (auto simp: on_train_start_def new_deque_def fit_def split: option.splits sum.splits)

theorem on_train_start_mismatch_witness:
  "n_classes example_task = Some 2
   \<and> on_train_start example_task fresh_task (example_model\<lparr>model_n_classes := 3\<rparr>) (Some 1350)
        = Inl (ValueError ''n_classes mismatch'')
   \<and> \<not> isl (on_train_start example_task fresh_task example_model (Some 1350))
   \<and> fit example_task (example_model\<lparr>model_n_classes := 3\<rparr>) (Some 1350) [example_batch]
        = (Some (ValueError ''n_classes mismatch''), 0)"
  using on_train_start_mismatch [of example_task 2 fresh_task "example_model\<lparr>model_n_classes := 3\<rparr>"
          "Some 1350" "[example_batch]"]
     on_train_start_mismatch [of example_task 2 fresh_task example_model "Some 1350" "[example_batch]"]
  by (simp add: example_task_def example_model_def)
lemma apply_loss_no_weight:
  "weight t = None \<Longrightarrow>
     apply_loss t st fX target
       = Inl (AttributeError (if self_loss_func st = None then ''loss_func_'' else ''to''))"
  by (simp add: apply_loss_def split: option.splits)

lemma log_classification_keeps:
  "log_classification t st fX yy w = Inr st' \<Longrightarrow> self_loss_func st' = self_loss_func st"
  by (auto simp: log_classification_def split: option.splits if_splits)

lemma log_classification_errors:
  "n_classes t \<noteq> None \<Longrightarrow> log_classification t st fX yy w = Inl e \<Longrightarrow> \<exists>a. e = AttributeError a"
  by (auto simp: log_classification_def split: option.splits if_splits)

lemma log_classification_ready:
  "n_classes t \<noteq> None \<Longrightarrow> self_log_y_pred st \<noteq> None \<Longrightarrow> self_log_y_true st \<noteq> None \<Longrightarrow>
     \<exists>st'. log_classification t st fX yy w = Inr st'"
  by (auto simp: log_classification_def split: option.splits if_splits)

lemma batch_loss_no_weight:
  assumes "weight t = None"
  shows "batch_loss t st b m w =
     (case task_type t of
        None \<Rightarrow> Inl (NotImplementedError ''task_type'')
      | Some TASK_CLASSIFICATION \<Rightarrow>
          (case log_classification t st (forward m (batch_X b)) (batch_y b) w of
             Inl e \<Rightarrow> Inl e
           | Inr st' \<Rightarrow>
               Inl (AttributeError (if self_loss_func st' = None then ''loss_func_'' else ''to'')))
      | Some _ \<Rightarrow>
          Inl (AttributeError (if self_loss_func st = None then ''loss_func_'' else ''to'')))"
  by (simp add: batch_loss_def Let_def apply_loss_no_weight [OF assms]
      split: option.splits task_kind.splits sum.splits)

text \<open>
  Claim C10. For a task that keeps the default \<open>weight\<close> (\<open>None\<close>), no call of \<open>batch_loss\<close>
  returns a loss. When the task implements \<open>task_type\<close> (and \<open>n_classes\<close>, for
  classification) the error is an \<open>AttributeError\<close>; after a successful \<open>on_train_start\<close>
  it is the one raised by \<open>self.weight.to\<close>.
\<close>

theorem batch_loss_without_weight:
  assumes "weight t = None"
  shows "isl (batch_loss t st b m w)
       \<and> (\<forall>k. task_type t = Some k \<and> (k = TASK_CLASSIFICATION \<longrightarrow> n_classes t \<noteq> None)
             \<longrightarrow> (\<exists>a. batch_loss t st b m w = Inl (AttributeError a)))
       \<and> (\<forall>k st0 bpe. task_type t = Some k \<and> on_train_start t st0 m bpe = Inr st
             \<longrightarrow> batch_loss t st b m w = Inl (AttributeError ''to''))"
proof (intro conjI allI impI)
  show "isl (batch_loss t st b m w)"
    by (simp add: batch_loss_no_weight [OF assms] split: option.splits task_kind.splits sum.splits)
next
  fix k assume k: "task_type t = Some k \<and> (k = TASK_CLASSIFICATION \<longrightarrow> n_classes t \<noteq> None)"
  show "\<exists>a. batch_loss t st b m w = Inl (AttributeError a)"
  proof (cases k)
    case TASK_CLASSIFICATION
    then show ?thesis
      using k log_classification_errors [of t st "forward m (batch_X b)" "batch_y b" w]
      by (auto simp: batch_loss_no_weight [OF assms] split: sum.splits)
  next
    case TASK_MULTI_LABEL_CLASSIFICATION
    then show ?thesis using k by (simp add: batch_loss_no_weight [OF assms])
  next
    case TASK_REGRESSION
    then show ?thesis using k by (simp add: batch_loss_no_weight [OF assms])
  qed
next
  fix k st0 bpe assume a: "task_type t = Some k \<and> on_train_start t st0 m bpe = Inr st"
  then have r: "n_classes t \<noteq> None" "self_loss_func st \<noteq> None" "self_log_y_pred st \<noteq> None"
     "self_log_y_true st \<noteq> None"
    by (auto simp: on_train_start_def split: option.splits if_splits sum.splits)
  show "batch_loss t st b m w = Inl (AttributeError ''to'')"
  proof (cases k)
    case TASK_CLASSIFICATION
    obtain st' where st': "log_classification t st (forward m (batch_X b)) (batch_y b) w = Inr st'"
      using log_classification_ready [OF r(1,3,4)] by blast
    then have "self_loss_func st' \<noteq> None" using r(2) log_classification_keeps by metis
    then show ?thesis using a TASK_CLASSIFICATION st'
      by (simp add: batch_loss_no_weight [OF assms])
  next
    case TASK_MULTI_LABEL_CLASSIFICATION
    then show ?thesis using a r by (simp add: batch_loss_no_weight [OF assms])
  next
    case TASK_REGRESSION
    then show ?thesis using a r by (simp add: batch_loss_no_weight [OF assms])
  qed
qed

theorem batch_loss_without_weight_witness:
  "weight example_task = None
   \<and> (\<exists>st. on_train_start example_task fresh_task example_model (Some 1350) = Inr st
        \<and> batch_loss example_task st example_batch example_model True
             = Inl (AttributeError ''to''))"
proof -
  obtain st where st: "on_train_start example_task fresh_task example_model (Some 1350) = Inr st"
    by (simp add: on_train_start_def example_task_def example_model_def new_deque_def)
  have w: "weight example_task = None" and k: "task_type example_task = Some TASK_CLASSIFICATION"
    by (simp_all add: example_task_def)
  from batch_loss_without_weight [OF w, of st example_batch example_model True] k st
  have "batch_loss example_task st example_batch example_model True = Inl (AttributeError ''to'')"
    by blast
  then show ?thesis using w st by blast
qed

end
